theory Spec2Isabelle
  imports Main "HOL-Library.Word" "HOL-Library.Multiset"
begin

section \<open>Machine integers and C library functions used by sums.c\<close>

text \<open>
  \<^verbatim>\<open>u_int16_t\<close> and \<^verbatim>\<open>u_int64_t\<close> are words of that width; their arithmetic wraps.
  \<^verbatim>\<open>off_t\<close> and \<^verbatim>\<open>long\<close> are 64 bits wide (LP64); the program only ever prints them with
  \<^verbatim>\<open>%lu\<close> and combines them with unsigned operands, so they are kept as 64-bit words too.
\<close>

type_synonym u16 = "16 word"
type_synonym u64 = "64 word"

text \<open>\<^verbatim>\<open>isdigit\<close> and \<^verbatim>\<open>isspace\<close> of \<^verbatim>\<open>ctype.h\<close> on a byte.\<close>

definition isdigit :: "char \<Rightarrow> bool" where
  "isdigit c = (48 \<le> (of_char c :: nat) \<and> (of_char c :: nat) \<le> 57)"

definition isspace :: "char \<Rightarrow> bool" where
  "isspace c = ((of_char c :: nat) = 32 \<or> (9 \<le> (of_char c :: nat) \<and> (of_char c :: nat) \<le> 13))"

definition digit_value :: "char \<Rightarrow> int" where
  "digit_value c = int (of_char c) - 48"

text \<open>The C string held in a character array: the bytes before the first NUL.\<close>

definition c_string :: "string \<Rightarrow> string" where
  "c_string a = takeWhile (\<lambda>c. c \<noteq> CHR 0x00) a"

text \<open>
  \<^verbatim>\<open>atoi\<close>: skip white space, read an optional sign, then the longest run of decimal digits;
  no digits gives 0. (The result is the mathematical value; the C function is undefined
  where that does not fit an \<^verbatim>\<open>int\<close>.)
\<close>

definition atoi :: "string \<Rightarrow> int" where
  "atoi s =
     (let t = dropWhile isspace s;
          neg = (t \<noteq> [] \<and> hd t = CHR ''-'');
          u = (if t \<noteq> [] \<and> (hd t = CHR ''-'' \<or> hd t = CHR ''+'') then tl t else t);
          v = foldl (\<lambda>a c. 10 * a + digit_value c) 0 (takeWhile isdigit u)
      in if neg then - v else v)"

text \<open>What \<^verbatim>\<open>printf\<close> writes for \<^verbatim>\<open>%lu\<close> and for a non-negative \<^verbatim>\<open>%d\<close>.\<close>

fun dec :: "nat \<Rightarrow> string" where
  "dec n = (if n < 10 then [char_of (48 + n)] else dec (n div 10) @ [char_of (48 + n mod 10)])"

declare dec.simps [simp del]

text \<open>
  Passing a \<^verbatim>\<open>u_int64_t\<close> where the callee declares an \<^verbatim>\<open>int\<close> parameter keeps the low 32 bits
  and reads them as a two's complement number.
\<close>

definition to_int :: "u64 \<Rightarrow> int" where
  "to_int x = (uint x + 2147483648) mod 4294967296 - 2147483648"

section \<open>The child: scanning and summing\<close>

text \<open>\<^verbatim>\<open>struct child_result\<close>, written to the pipe by a child.\<close>

record child_result =
  child_num :: u16
  sum_val :: u64

text \<open>The locals of \<^verbatim>\<open>handle_stdin\<close> and \<^verbatim>\<open>handle_file\<close>: \<^verbatim>\<open>buf\<close>, \<^verbatim>\<open>c_count\<close> and \<^verbatim>\<open>result.sum\<close>.\<close>

record scan_state =
  buf :: string
  c_count :: nat
  acc :: u64

definition scan_init :: scan_state where
  "scan_init = \<lparr>buf = replicate 4 (CHR 0x00), c_count = 0, acc = 0\<rparr>"

text \<open>
  The body of the reading loop, the same in \<^verbatim>\<open>handle_stdin\<close> (lines 290 to 301) and in
  \<^verbatim>\<open>handle_file\<close> (lines 333 to 341), for the byte \<open>c\<close> just read.
\<close>

definition scan_byte :: "char \<Rightarrow> scan_state \<Rightarrow> scan_state" where
  "scan_byte c s =
     (let s1 = (if c_count s < 3 \<and> isdigit c
                then s\<lparr>buf := (buf s)[c_count s := c], c_count := c_count s + 1\<rparr>
                else s)
      in if c_count s1 \<ge> 3
         then s1\<lparr>acc := acc s1 + of_int (atoi (c_string (buf s1))), c_count := 0\<rparr>
         else s1)"

text \<open>\<^verbatim>\<open>while ((c = fgetc(file)) != EOF)\<close>: the stream is the list of bytes still to come.\<close>

fun stdin_loop :: "string \<Rightarrow> scan_state \<Rightarrow> scan_state" where
  "stdin_loop [] s = s"
| "stdin_loop (c # rest) s = stdin_loop rest (scan_byte c s)"

definition handle_stdin :: "string \<Rightarrow> u16 \<Rightarrow> child_result" where
  "handle_stdin file n = \<lparr>child_num = n, sum_val = acc (stdin_loop file scan_init)\<rparr>"

text \<open>\<^verbatim>\<open>while (pos <= read_to && (c = fgetc(file)) != EOF)\<close>, with \<^verbatim>\<open>pos += 1\<close> in the body.\<close>

fun file_loop :: "string \<Rightarrow> u64 \<Rightarrow> u64 \<Rightarrow> scan_state \<Rightarrow> scan_state" where
  "file_loop [] pos read_to s = s"
| "file_loop (c # rest) pos read_to s =
     (if pos \<le> read_to then file_loop rest (pos + 1) read_to (scan_byte c s) else s)"

definition handle_file :: "string \<Rightarrow> u16 \<Rightarrow> u64 \<Rightarrow> u64 \<Rightarrow> child_result" where
  "handle_file file n seek_to read_to =
     \<lparr>child_num = n, sum_val = acc (file_loop file seek_to read_to scan_init)\<rparr>"

text \<open>
  \<^verbatim>\<open>open_and_seek_to\<close>: the stream of the file's bytes from \<open>position\<close> on. \<^verbatim>\<open>fseek\<close> takes a
  \<^verbatim>\<open>long\<close>; a negative offset from the start fails and leaves the stream at byte 0, and
  a position past the end gives a stream that is at end of file.
\<close>

definition open_and_seek_to :: "string \<Rightarrow> u64 \<Rightarrow> string" where
  "open_and_seek_to content position =
     (if 9223372036854775808 \<le> position then content else drop (unat position) content)"

section \<open>The reference scan, from the specification's words\<close>

text \<open>
  The digits of the input in order, cut into groups of three; each full group read as a
  decimal number (leading zeros allowed); a shorter last group dropped.
\<close>

fun groups_of_three :: "'a list \<Rightarrow> 'a list list" where
  "groups_of_three (a # b # c # rest) = [a, b, c] # groups_of_three rest"
| "groups_of_three _ = []"

definition decimal_value :: "string \<Rightarrow> nat" where
  "decimal_value ds = foldl (\<lambda>v d. 10 * v + (of_char d - 48)) 0 ds"

definition group_sum :: "string \<Rightarrow> nat" where
  "group_sum ds = sum_list (map decimal_value (groups_of_three ds))"

definition reference_scan :: "string \<Rightarrow> nat" where
  "reference_scan bytes = group_sum (filter isdigit bytes)"

section \<open>Command-line options\<close>

datatype option_key = BLOCK_SIZE | INPUT_FILE | OUTPUT_FILE | CHILD_COUNT | OTHER_KEY

datatype errno = EINVAL | ARGP_ERR_UNKNOWN

text \<open>
  \<^verbatim>\<open>struct program_options\<close>. \<open>output_file\<close> is the path whose stream the field holds
  (\<open>None\<close> for \<^verbatim>\<open>NULL\<close>, \<open>Some ''-''\<close> for standard output); \<open>st_size\<close> is
  \<^verbatim>\<open>_stat_buf.st_size\<close>, the only member of the \<^verbatim>\<open>stat\<close> buffer the program reads.
\<close>

record program_options =
  input_file :: string
  output_file :: "string option"
  child_count :: u16
  block_size :: u64
  used_block :: bool
  used_child :: bool
  st_size :: u64

text \<open>The initial value of the global; its \<^verbatim>\<open>stat\<close> buffer is zero, as static storage is.\<close>

definition default_options :: program_options where
  "default_options =
     \<lparr>input_file = ''-'', output_file = None, child_count = 1, block_size = 0,
      used_block = False, used_child = False, st_size = 0\<rparr>"

definition parse_opt :: "option_key \<Rightarrow> string \<Rightarrow> program_options \<Rightarrow> errno + program_options" where
  "parse_opt key arg arguments =
     (case key of
        BLOCK_SIZE \<Rightarrow>
          if used_child arguments then Inl EINVAL
          else Inr (arguments\<lparr>block_size := of_int (atoi arg), used_block := True\<rparr>)
      | INPUT_FILE \<Rightarrow> Inr (arguments\<lparr>input_file := arg\<rparr>)
      | OUTPUT_FILE \<Rightarrow> Inr (arguments\<lparr>output_file := Some arg\<rparr>)
      | CHILD_COUNT \<Rightarrow>
          if used_block arguments then Inl EINVAL
          else (let a = arguments\<lparr>child_count := of_int (atoi arg), used_child := True\<rparr>
                in if child_count a \<le> 0 then Inl EINVAL else Inr a)
      | OTHER_KEY \<Rightarrow> Inl ARGP_ERR_UNKNOWN)"

text \<open>
  \<^verbatim>\<open>argp_parse\<close> calls the parser once for each option of the command line, in order, and
  stops at the first error.
\<close>

fun argp_parse :: "(option_key \<times> string) list \<Rightarrow> program_options \<Rightarrow> errno + program_options" where
  "argp_parse [] po = Inr po"
| "argp_parse ((key, arg) # rest) po =
     (case parse_opt key arg po of Inl e \<Rightarrow> Inl e | Inr po' \<Rightarrow> argp_parse rest po')"

definition handle_options :: "(option_key \<times> string) list \<Rightarrow> errno + program_options" where
  "handle_options args =
     (case argp_parse args default_options of
        Inl e \<Rightarrow> Inl e
      | Inr po \<Rightarrow> Inr (if output_file po = None then po\<lparr>output_file := Some ''-''\<rparr> else po))"

section \<open>The environment of a run\<close>

text \<open>
  One return of \<^verbatim>\<open>epoll_wait\<close> followed by \<^verbatim>\<open>read\<close>: the descriptor reported, the number
  \<open>bytes\<close> that \<^verbatim>\<open>read\<close> returned, and what the local \<^verbatim>\<open>result\<close> holds afterwards.
\<close>

record event =
  ev_fd :: int
  bytes :: int
  result :: child_result

text \<open>
  Everything the operating system decides: the result of \<^verbatim>\<open>epoll_create\<close>, the files by
  path (\<open>None\<close> where \<^verbatim>\<open>stat\<close> and \<^verbatim>\<open>fopen\<close> fail), the bytes on standard input, the
  descriptors of the \<open>k\<close>-th \<^verbatim>\<open>pipe\<close> call (\<open>None\<close> where it fails), whether the \<open>k\<close>-th
  \<^verbatim>\<open>fork\<close> succeeds, and the sequence of events the coordinator is woken with. When that
  sequence is used up, \<^verbatim>\<open>epoll_wait\<close>, called without a timeout, never returns.
\<close>

record environment =
  epoll_create_result :: int
  files :: "string \<Rightarrow> string option"
  stdin_data :: string
  pipe_result :: "nat \<Rightarrow> (int \<times> int) option"
  fork_ok :: "nat \<Rightarrow> bool"
  events :: "event list"

section \<open>Creating the children\<close>

text \<open>
  \<^verbatim>\<open>struct child_info\<close>, without \<^verbatim>\<open>event_structure\<close> (always \<^verbatim>\<open>EPOLLIN\<close> on \<^verbatim>\<open>fds[0]\<close>) and the
  unused \<^verbatim>\<open>result\<close>. The linked \<^verbatim>\<open>child_list\<close> behind \<^verbatim>\<open>list_head\<close> is the list of its nodes; the
  \<^verbatim>\<open>next\<close> of a fresh node, which \<^verbatim>\<open>add_child\<close> never writes, is taken to be \<^verbatim>\<open>NULL\<close>.
\<close>

record child_info =
  fds :: "int \<times> int"
  seek_to :: u64
  read_to :: u64
  info_child_num :: u16

text \<open>The walk to the last node, counting the nodes passed into \<^verbatim>\<open>child_num\<close>.\<close>

fun walk_to_end :: "child_info list \<Rightarrow> int \<Rightarrow> int" where
  "walk_to_end [] n = n"
| "walk_to_end (node # rest) n = walk_to_end rest (n + 1)"

datatype fatal = ArgumentError errno | EpollCreateError | StatError | PipeError | ForkError
  | DivideByZero

text \<open>
  \<^verbatim>\<open>add_child\<close>, in the parent. Its parameters \<^verbatim>\<open>seek_to\<close> and \<^verbatim>\<open>read_to\<close> are \<^verbatim>\<open>int\<close>s, stored
  into \<^verbatim>\<open>u_int64_t\<close> members. A failure carries the list as it was.
\<close>

definition add_child ::
  "environment \<Rightarrow> child_info list \<Rightarrow> int \<Rightarrow> int \<Rightarrow> (fatal \<times> child_info list) + child_info list" where
  "add_child env list_head seek_to_arg read_to_arg =
     (case pipe_result env (length list_head) of
        None \<Rightarrow> Inl (PipeError, list_head)
      | Some p \<Rightarrow>
          (let num = walk_to_end list_head 0;
               new_child = \<lparr>fds = p, seek_to = of_int seek_to_arg, read_to = of_int read_to_arg,
                            info_child_num = of_int num\<rparr>
           in if \<not> fork_ok env (length list_head) then Inl (ForkError, list_head)
              else Inr (list_head @ [new_child])))"

text \<open>What the child does after the fork: \<^verbatim>\<open>child_handler\<close>. No file to open, no result.\<close>

definition child_handler :: "environment \<Rightarrow> program_options \<Rightarrow> child_info \<Rightarrow> child_result option" where
  "child_handler env po ci =
     (let is_stdin = (input_file po = ''-'');
          read_to' = (if read_to ci = - 1 then st_size po else read_to ci)
      in if is_stdin then Some (handle_stdin (stdin_data env) (info_child_num ci))
         else (case files env (input_file po) of
                 None \<Rightarrow> None
               | Some content \<Rightarrow>
                   Some (handle_file (open_and_seek_to content (seek_to ci)) (info_child_num ci)
                           (seek_to ci) read_to')))"

section \<open>The parent: \<^verbatim>\<open>main\<close>\<close>

text \<open>Lines 486 to 517: warnings for standard input, or \<^verbatim>\<open>stat\<close> and the size line.\<close>

definition input_setup ::
  "environment \<Rightarrow> program_options \<Rightarrow> fatal + (string list \<times> string list \<times> program_options)" where
  "input_setup env po =
     (if input_file po = ''-'' then
        (let w1 = (if block_size po \<noteq> 0
                   then [''Warn: using stdin... ignoring block size '' @ dec (unat (block_size po)) @ ''.'']
                   else []);
             po1 = (if block_size po \<noteq> 0 then po\<lparr>block_size := 0\<rparr> else po);
             w2 = (if child_count po1 > 1
                   then [''Warn: using stdin... ignoring child count '' @ dec (unat (child_count po1)) @ ''.'']
                   else []);
             po2 = (if child_count po1 > 1 then po1\<lparr>child_count := 1\<rparr> else po1)
         in Inr (w1 @ w2, [], po2))
      else (case files env (input_file po) of
              None \<Rightarrow> Inl StatError
            | Some content \<Rightarrow>
                (let po1 = po\<lparr>st_size := of_nat (length content)\<rparr>
                 in Inr ([], [''File size: '' @ dec (unat (st_size po1))], po1))))"

text \<open>
  Lines 519 to 526. The quotient by the block size is stored into the 16-bit
  \<^verbatim>\<open>child_count\<close>; the division by a \<^verbatim>\<open>child_count\<close> of zero traps.
\<close>

definition sizing :: "program_options \<Rightarrow> fatal + program_options" where
  "sizing po =
     (if block_size po > 0 then Inr (po\<lparr>child_count := ucast (st_size po div block_size po)\<rparr>)
      else if child_count po = 0 then Inl DivideByZero
      else Inr (po\<lparr>block_size := st_size po div ucast (child_count po)\<rparr>))"

text \<open>Lines 532 to 546: the loop over \<^verbatim>\<open>i\<close> that computes each block and adds its child.\<close>

function create_children ::
  "environment \<Rightarrow> program_options \<Rightarrow> int \<Rightarrow> child_info list \<Rightarrow> (fatal \<times> child_info list) + child_info list" where
  "create_children env po i list_head =
     (if i < uint (child_count po) then
        (let seek_to_v = of_int i * block_size po;
             read_to_v = (if i + 1 = uint (child_count po) then - 1
                          else of_int (i + 1) * block_size po - 1)
         in case add_child env list_head (to_int seek_to_v) (to_int read_to_v) of
              Inl f \<Rightarrow> Inl f
            | Inr list_head' \<Rightarrow> create_children env po (i + 1) list_head')
      else Inr list_head)"
  by pat_completeness auto
termination
  by (relation "measure (\<lambda>(env, po, i, list_head). nat (uint (child_count po) - i))") auto

text \<open>
  The state of the polling loop: \<^verbatim>\<open>final_sum\<close>, \<^verbatim>\<open>waiting_for\<close>, the lines written to the
  output file so far, and the descriptors registered with epoll.
\<close>

record coordinator =
  final_sum :: u64
  waiting_for :: u16
  out :: "string list"
  watched :: "int list"

definition child_line :: "child_result \<Rightarrow> string" where
  "child_line r = ''Child '' @ dec (unat (child_num r)) @ '' Sum: '' @ dec (unat (sum_val r))"

text \<open>Lines 563 to 578: the body of the loop after \<^verbatim>\<open>epoll_wait\<close> and \<^verbatim>\<open>read\<close>.\<close>

definition handle_event :: "event \<Rightarrow> coordinator \<Rightarrow> coordinator" where
  "handle_event ev st =
     (if bytes ev > 0 then
        st\<lparr>out := out st @ [child_line (result ev)],
           final_sum := final_sum st + sum_val (result ev),
           waiting_for := waiting_for st - 1,
           watched := removeAll (ev_fd ev) (watched st)\<rparr>
      else st\<lparr>watched := removeAll (ev_fd ev) (watched st)\<rparr>)"

text \<open>
  \<^verbatim>\<open>while (waiting_for > 0)\<close>. \<open>None\<close>: the loop never ends, the coordinator waits in
  \<^verbatim>\<open>epoll_wait\<close> for an event that does not come.
\<close>

fun poll_loop :: "event list \<Rightarrow> coordinator \<Rightarrow> coordinator option" where
  "poll_loop [] st = (if waiting_for st > 0 then None else Some st)"
| "poll_loop (ev # rest) st =
     (if waiting_for st > 0 then poll_loop rest (handle_event ev st) else Some st)"

text \<open>The states at the head of the loop, one after the other.\<close>

fun poll_states :: "event list \<Rightarrow> coordinator \<Rightarrow> coordinator list" where
  "poll_states [] st = [st]"
| "poll_states (ev # rest) st =
     (if waiting_for st > 0 then st # poll_states rest (handle_event ev st) else [st])"

datatype outcome = Returned | Failed fatal | Blocked

record run =
  outcome :: outcome
  stderr_lines :: "string list"
  output_lines :: "string list"
  children :: "child_info list"

definition failure_message :: "fatal \<Rightarrow> string" where
  "failure_message f =
     (case f of
        ArgumentError e \<Rightarrow> ''Error parsing agruments''
      | EpollCreateError \<Rightarrow> ''epoll create''
      | StatError \<Rightarrow> ''Error checking input file''
      | PipeError \<Rightarrow> ''Error creating pipes for child''
      | ForkError \<Rightarrow> ''Error forking child.''
      | DivideByZero \<Rightarrow> ''Floating point exception'')"

text \<open>\<^verbatim>\<open>main\<close> from line 486 on, for the options that \<^verbatim>\<open>handle_options\<close> returned.\<close>

definition run_with_options :: "environment \<Rightarrow> program_options \<Rightarrow> run" where
  "run_with_options env po =
     (case input_setup env po of
        Inl f \<Rightarrow> \<lparr>outcome = Failed f, stderr_lines = [failure_message f], output_lines = [],
                  children = []\<rparr>
      | Inr (warns, outs, po1) \<Rightarrow>
          (case sizing po1 of
             Inl f \<Rightarrow> \<lparr>outcome = Failed f, stderr_lines = warns @ [failure_message f],
                       output_lines = outs, children = []\<rparr>
           | Inr po2 \<Rightarrow>
               (case create_children env po2 0 [] of
                  Inl (f, cs) \<Rightarrow> \<lparr>outcome = Failed f, stderr_lines = warns @ [failure_message f],
                                  output_lines = outs, children = cs\<rparr>
                | Inr cs \<Rightarrow>
                    (let st0 = \<lparr>final_sum = 0, waiting_for = child_count po2, out = outs,
                                watched = map (\<lambda>ci. fst (fds ci)) cs\<rparr>
                     in case poll_loop (events env) st0 of
                          None \<Rightarrow> \<lparr>outcome = Blocked, stderr_lines = warns,
                                    output_lines = out (last (poll_states (events env) st0)),
                                    children = cs\<rparr>
                        | Some st \<Rightarrow>
                            \<lparr>outcome = Returned, stderr_lines = warns,
                             output_lines = out st @ [''Final Sum: '' @ dec (unat (final_sum st))],
                             children = cs\<rparr>))))"

definition main :: "environment \<Rightarrow> (option_key \<times> string) list \<Rightarrow> run" where
  "main env args =
     (if epoll_create_result env = - 1 then
        \<lparr>outcome = Failed EpollCreateError, stderr_lines = [failure_message EpollCreateError],
         output_lines = [], children = []\<rparr>
      else (case handle_options args of
              Inl e \<Rightarrow> \<lparr>outcome = Failed (ArgumentError e),
                        stderr_lines = [failure_message (ArgumentError e)],
                        output_lines = [], children = []\<rparr>
            | Inr po \<Rightarrow> run_with_options env po))"

section \<open>Notions used in the statements\<close>

text \<open>
  The scan has the digits \<open>p\<close> of an unfinished group in hand: fewer than three, held at
  the front of \<^verbatim>\<open>buf\<close>, whose fourth byte is still the NUL it was initialised with.
\<close>

definition pending :: "scan_state \<Rightarrow> string \<Rightarrow> bool" where
  "pending s p =
     (length (buf s) = 4 \<and> buf s ! 3 = CHR 0x00 \<and> c_count s = length p \<and>
      length p < 3 \<and> take (length p) (buf s) = p \<and> list_all isdigit p)"

text \<open>\<^verbatim>\<open>sizeof(struct child_result)\<close> on LP64: two bytes, six of padding, eight bytes.\<close>

definition sizeof_child_result :: int where
  "sizeof_child_result = 16"

text \<open>The test of line 567 on what \<^verbatim>\<open>read\<close> returned.\<close>

definition read_ok :: "event \<Rightarrow> bool" where
  "read_ok ev = (bytes ev > 0)"

text \<open>The records the loop takes in before it ends: those of the first \<^verbatim>\<open>waiting_for\<close> accepted reads.\<close>

definition consumed :: "event list \<Rightarrow> coordinator \<Rightarrow> child_result list" where
  "consumed evs st = take (unat (waiting_for st)) (map result (filter read_ok evs))"

text \<open>
  \<^verbatim>\<open>epoll_wait\<close> reports registered descriptors only, and the loop removes a descriptor
  once it has been reported: a sequence of events the set \<open>w\<close> of descriptors can give.
\<close>

fun deliverable :: "int list \<Rightarrow> event list \<Rightarrow> bool" where
  "deliverable w [] = True"
| "deliverable w (ev # rest) = (ev_fd ev \<in> set w \<and> deliverable (removeAll (ev_fd ev) w) rest)"

text \<open>The node that iteration \<open>i\<close> of the loop in \<^verbatim>\<open>main\<close> appends through \<^verbatim>\<open>add_child\<close>.\<close>

definition child_of :: "environment \<Rightarrow> program_options \<Rightarrow> nat \<Rightarrow> child_info" where
  "child_of env po i =
     \<lparr>fds = the (pipe_result env i),
      seek_to = of_int (to_int (of_nat i * block_size po)),
      read_to = of_int (to_int (if Suc i = unat (child_count po) then - 1
                                else of_nat (Suc i) * block_size po - 1)),
      info_child_num = of_nat i\<rparr>"

text \<open>
  The offsets of the input file whose bytes a child reads: from \<^verbatim>\<open>seek_to\<close> up to \<^verbatim>\<open>read_to\<close>
  (the file size where \<^verbatim>\<open>read_to\<close> is \<open>-1\<close>), and not past the end of the file. The bytes at
  these offsets are the child's segment.
\<close>

definition offsets_read :: "program_options \<Rightarrow> child_info \<Rightarrow> nat list" where
  "offsets_read po ci =
     [unat (seek_to ci) ..<
        min (unat (st_size po)) (unat (if read_to ci = - 1 then st_size po else read_to ci) + 1)]"

definition segment :: "string \<Rightarrow> program_options \<Rightarrow> child_info \<Rightarrow> string" where
  "segment content po ci = map ((!) content) (offsets_read po ci)"

text \<open>The event of reading the whole record \<open>r\<close> that the child \<open>ci\<close> wrote.\<close>

definition delivered :: "child_info \<Rightarrow> child_result \<Rightarrow> event" where
  "delivered ci r = \<lparr>ev_fd = fst (fds ci), bytes = sizeof_child_result, result = r\<rparr>"

subsection \<open>Concrete runs\<close>


text \<open>A read that returns 0: the pipe was closed with nothing written.\<close>

definition closed_channel :: event where
  "closed_channel = \<lparr>ev_fd = 4, bytes = 0, result = \<lparr>child_num = 0, sum_val = 0\<rparr>\<rparr>"

definition one_pending :: coordinator where
  "one_pending = \<lparr>final_sum = 0, waiting_for = 1, out = [], watched = [4]\<rparr>"

text \<open>
  A system with one input file \<open>in.dat\<close> of the given content, where \<^verbatim>\<open>epoll_create\<close>,
  \<^verbatim>\<open>pipe\<close> and \<^verbatim>\<open>fork\<close> succeed and the coordinator is woken with the events \<open>evs\<close>.
\<close>

definition file_env :: "string \<Rightarrow> event list \<Rightarrow> environment" where
  "file_env content evs =
     \<lparr>epoll_create_result = 3,
      files = (\<lambda>p. if p = ''in.dat'' then Some content else None),
      stdin_data = [],
      pipe_result = (\<lambda>k. Some (4 + 2 * int k, 5 + 2 * int k)),
      fork_ok = (\<lambda>k. True),
      events = evs\<rparr>"

text \<open>The options \<^verbatim>\<open>main\<close> holds when it starts to create the children.\<close>

definition sized_options :: "environment \<Rightarrow> (option_key \<times> string) list \<Rightarrow> program_options option" where
  "sized_options env args =
     (case handle_options args of
        Inl e \<Rightarrow> None
      | Inr po \<Rightarrow>
          (case input_setup env po of
             Inl f \<Rightarrow> None
           | Inr (warns, outs, po1) \<Rightarrow> (case sizing po1 of Inl f \<Rightarrow> None | Inr po2 \<Rightarrow> Some po2)))"

text \<open>
  Scenario C: the file \<open>000111222333\<close> and two children; the options after sizing, the
  two nodes, the two records arriving second child first, the coordinator before polling.
\<close>

definition scenario_c_args :: "(option_key \<times> string) list" where
  "scenario_c_args = [(INPUT_FILE, ''in.dat''), (CHILD_COUNT, ''2'')]"

definition scenario_c_options :: program_options where
  "scenario_c_options =
     \<lparr>input_file = ''in.dat'', output_file = Some ''-'', child_count = 2, block_size = 6,
      used_block = False, used_child = True, st_size = 12\<rparr>"

definition scenario_c_children :: "child_info list" where
  "scenario_c_children =
     [\<lparr>fds = (4, 5), seek_to = 0, read_to = 5, info_child_num = 0\<rparr>,
      \<lparr>fds = (6, 7), seek_to = 6, read_to = - 1, info_child_num = 1\<rparr>]"

definition scenario_c_events :: "event list" where
  "scenario_c_events =
     [\<lparr>ev_fd = 6, bytes = 16, result = \<lparr>child_num = 1, sum_val = 555\<rparr>\<rparr>,
      \<lparr>ev_fd = 4, bytes = 16, result = \<lparr>child_num = 0, sum_val = 111\<rparr>\<rparr>]"

definition scenario_c_unsized :: program_options where
  "scenario_c_unsized = scenario_c_options\<lparr>block_size := 0\<rparr>"

definition scenario_c_waiting :: coordinator where
  "scenario_c_waiting =
     \<lparr>final_sum = 0, waiting_for = 2, out = [''File size: 12''], watched = [4, 6]\<rparr>"

text \<open>
  Four children on a file of 4 GiB: the options before and after sizing (the block size is
  \<open>2^30\<close>), and the four nodes that \<^verbatim>\<open>main\<close> creates.
\<close>

definition four_gib_options :: program_options where
  "four_gib_options =
     \<lparr>input_file = ''in.dat'', output_file = Some ''-'', child_count = 4, block_size = 0,
      used_block = False, used_child = True, st_size = 4294967296\<rparr>"

definition four_gib_sized :: program_options where
  "four_gib_sized = four_gib_options\<lparr>block_size := 1073741824\<rparr>"

definition four_gib_children :: "child_info list" where
  "four_gib_children =
     [\<lparr>fds = (4, 5), seek_to = 0, read_to = 1073741823, info_child_num = 0\<rparr>,
      \<lparr>fds = (6, 7), seek_to = 1073741824, read_to = 2147483647, info_child_num = 1\<rparr>,
      \<lparr>fds = (8, 9), seek_to = 18446744071562067968, read_to = 18446744072635809791,
         info_child_num = 2\<rparr>,
      \<lparr>fds = (10, 11), seek_to = 18446744072635809792, read_to = - 1, info_child_num = 3\<rparr>]"

text \<open>A block size larger than the file: the file \<open>in.dat\<close> holds \<open>123\<close>.\<close>

definition small_block_args :: "(option_key \<times> string) list" where
  "small_block_args = [(INPUT_FILE, ''in.dat''), (BLOCK_SIZE, ''10'')]"


text \<open>
  Scenario C again, but the second child's pipe gives one byte only. That byte is the low
  byte of \<^verbatim>\<open>child_num\<close>; the rest of \<^verbatim>\<open>result\<close> is what the first read left there.
\<close>

definition full_then_partial :: "event list" where
  "full_then_partial =
     [\<lparr>ev_fd = 4, bytes = 16, result = \<lparr>child_num = 0, sum_val = 111\<rparr>\<rparr>,
      \<lparr>ev_fd = 6, bytes = 1, result = \<lparr>child_num = 1, sum_val = 111\<rparr>\<rparr>]"


text \<open>The warnings of a run on standard input, one for each setting that is overridden.\<close>

definition stdin_warnings :: "program_options \<Rightarrow> string list" where
  "stdin_warnings po =
     (if block_size po \<noteq> 0
      then [''Warn: using stdin... ignoring block size '' @ dec (unat (block_size po)) @ ''.'']
      else []) @
     (if child_count po > 1
      then [''Warn: using stdin... ignoring child count '' @ dec (unat (child_count po)) @ ''.'']
      else [])"

text \<open>The single child of a run on standard input: from offset 0 to the end of the stream.\<close>

definition stdin_child :: "int \<times> int \<Rightarrow> child_info" where
  "stdin_child p = \<lparr>fds = p, seek_to = 0, read_to = - 1, info_child_num = 0\<rparr>"

text \<open>A system without files, with the given bytes on standard input.\<close>

definition stdin_env :: "string \<Rightarrow> environment" where
  "stdin_env input =
     \<lparr>epoll_create_result = 3, files = (\<lambda>p. None), stdin_data = input,
      pipe_result = (\<lambda>k. Some (4 + 2 * int k, 5 + 2 * int k)), fork_ok = (\<lambda>k. True),
      events = []\<rparr>"

section \<open>The scan computes the reference sum\<close>

lemma isdigit_not_special:
  "isdigit c \<Longrightarrow> \<not> isspace c \<and> c \<noteq> CHR ''-'' \<and> c \<noteq> CHR ''+'' \<and> c \<noteq> CHR 0x00"
  by (auto simp: isdigit_def isspace_def)

lemma atoi_three_digits:
  assumes "isdigit a" "isdigit b" "isdigit c"
  shows "atoi (c_string [a, b, c, CHR 0x00]) = int (decimal_value [a, b, c])"
  using assms isdigit_not_special[of a] isdigit_not_special[of b] isdigit_not_special[of c]
  by (simp add: atoi_def c_string_def decimal_value_def digit_value_def Let_def isdigit_def)

lemma pending_init: "pending scan_init []"
  by (simp add: pending_def scan_init_def)

lemma scan_byte_other: "\<not> isdigit c \<Longrightarrow> pending s p \<Longrightarrow> scan_byte c s = s"
  by (simp add: scan_byte_def pending_def)

lemma len4: "length xs = 4 \<Longrightarrow> \<exists>a b c d. xs = [a, b, c, d]"
  by (cases xs; simp; rename_tac y ys; case_tac ys; simp; rename_tac z zs; case_tac zs; simp; rename_tac w ws; case_tac ws; simp)

lemma scan_byte_digit_partial:
  assumes "isdigit c" "pending s p" "length p < 2"
  shows "pending (scan_byte c s) (p @ [c]) \<and> acc (scan_byte c s) = acc s"
proof -
  obtain b0 b1 b2 b3 where b: "buf s = [b0, b1, b2, b3]"
    using assms(2) len4 unfolding pending_def by blast
  from assms(3) consider "p = []" | x where "p = [x]"
    by (cases p; simp; rename_tac y ys; case_tac ys; simp)
  then show ?thesis
    using assms b by cases (auto simp: scan_byte_def pending_def)
qed

lemma scan_byte_digit_full:
  assumes "isdigit c" "pending s p" "length p = 2"
  shows "pending (scan_byte c s) [] \<and>
         acc (scan_byte c s) = acc s + of_nat (decimal_value (p @ [c]))"
proof -
  obtain b0 b1 b2 b3 where b: "buf s = [b0, b1, b2, b3]"
    using assms(2) len4 unfolding pending_def by blast
  from assms(3) obtain x y where p: "p = [x, y]"
    by (cases p; simp; rename_tac y ys; case_tac ys; simp)
  have bb: "b0 = x" "b1 = y" "b3 = CHR 0x00" "isdigit x" "isdigit y" "c_count s = 2"
    using assms(2) b p by (auto simp: pending_def)
  have "atoi (c_string [x, y, c, CHR 0x00]) = int (decimal_value [x, y, c])"
    using atoi_three_digits bb assms(1) by blast
  then show ?thesis
    using assms(1) b p bb by (simp add: scan_byte_def pending_def)
qed

lemma group_sum_short: "length p < 3 \<Longrightarrow> group_sum p = 0"
  by (cases p; simp add: group_sum_def; rename_tac y ys; case_tac ys; simp; rename_tac z zs; case_tac zs; simp)

lemma group_sum_full: "length p = 3 \<Longrightarrow> group_sum (p @ ds) = decimal_value p + group_sum ds"
  by (cases p; simp add: group_sum_def; rename_tac y ys; case_tac ys; simp; rename_tac z zs; case_tac zs; simp)

lemma stdin_loop_acc:
  "pending s p \<Longrightarrow> acc (stdin_loop bs s) = acc s + of_nat (group_sum (p @ filter isdigit bs))"
proof (induction bs arbitrary: s p)
  case Nil
  then show ?case by (simp add: group_sum_short pending_def)
next
  case (Cons c bs)
  show ?case
  proof (cases "isdigit c")
    case False
    then show ?thesis using Cons by (simp add: scan_byte_other)
  next
    case True
    show ?thesis
    proof (cases "length p < 2")
      case True
      with \<open>isdigit c\<close> Cons.prems have "pending (scan_byte c s) (p @ [c])" "acc (scan_byte c s) = acc s"
        using scan_byte_digit_partial by blast+
      then show ?thesis using Cons.IH[of "scan_byte c s" "p @ [c]"] \<open>isdigit c\<close> by simp
    next
      case False
      then have l: "length p = 2" using Cons.prems by (simp add: pending_def)
      with \<open>isdigit c\<close> Cons.prems have "pending (scan_byte c s) []"
          "acc (scan_byte c s) = acc s + of_nat (decimal_value (p @ [c]))"
        using scan_byte_digit_full by blast+
      moreover have "group_sum (p @ c # filter isdigit bs) = decimal_value (p @ [c]) + group_sum (filter isdigit bs)"
        using group_sum_full[of "p @ [c]" "filter isdigit bs"] l by simp
      ultimately show ?thesis using Cons.IH[of "scan_byte c s" "[]"] \<open>isdigit c\<close> by simp
    qed
  qed
qed

lemma handle_stdin_reference: "sum_val (handle_stdin input n) = of_nat (reference_scan input)"
  using stdin_loop_acc[OF pending_init, where bs = "input"]
  by (simp add: handle_stdin_def reference_scan_def scan_init_def)

lemma group_sum_bound: "list_all isdigit ds \<Longrightarrow> group_sum ds \<le> 333 * length ds"
  by (induction ds rule: groups_of_three.induct)
     (auto simp: group_sum_def decimal_value_def isdigit_def)

lemma reference_scan_bound: "reference_scan input \<le> 333 * length input"
proof -
  have "list_all isdigit (filter isdigit input)" by (simp add: list_all_iff)
  then have "group_sum (filter isdigit input) \<le> 333 * length (filter isdigit input)"
    by (rule group_sum_bound)
  also have "\<dots> \<le> 333 * length input" by simp
  finally show ?thesis by (simp add: reference_scan_def)
qed

lemma file_loop_take:
  "r \<noteq> - 1 \<Longrightarrow>
   file_loop stream pos r s = stdin_loop (take (unat r + 1 - unat pos) stream) s"
proof (induction stream arbitrary: pos s)
  case Nil
  then show ?case by simp
next
  case (Cons c rest)
  show ?case
  proof (cases "pos \<le> r")
    case False
    then have "unat r + 1 - unat pos = 0" by (simp add: word_le_nat_alt)
    with False show ?thesis by simp
  next
    case True
    then have le: "unat pos \<le> unat r" by (simp add: word_le_nat_alt)
    have "pos \<noteq> - 1"
      using True Cons.prems by (auto simp: word_order.extremum_unique)
    then have "pos + 1 \<noteq> 0"
      using max_word_wrap by blast
    then have "unat (pos + 1) = unat pos + 1"
      using unatSuc[of pos] by (simp add: add.commute)
    then show ?thesis
      using True le Cons.IH[OF Cons.prems, of "pos + 1" "scan_byte c s"]
      by (simp add: Suc_diff_le take_Cons')
  qed
qed

lemma file_loop_all:
  "file_loop stream pos (- 1) s = stdin_loop stream s"
  by (induction stream arbitrary: pos s) simp_all


text \<open>
  Claim C6. For every byte sequence, the sum a single worker computes is the reference
  scan of that sequence: the digits in order, whatever lies between them, in groups of
  three read as decimal numbers, an unfinished last group left out. The sum is a 64-bit
  number, the type of \<^verbatim>\<open>result.sum\<close>; it is the reference scan itself for every input of
  fewer than \<open>2^64 / 333\<close> bytes and its residue modulo \<open>2^64\<close> beyond. The same holds for
  the bytes a worker on a file gets up to the end of its range. The input \<open>abc123def456\<close>
  gives 579 and \<open>12 3\<close> gives 123.
\<close>

theorem worker_sum_is_reference_scan:
  "child_num (handle_stdin input n) = n \<and>
   sum_val (handle_stdin input n) = of_nat (reference_scan input) \<and>
   unat (sum_val (handle_stdin input n)) = reference_scan input mod 2 ^ 64 \<and>
   (333 * length input < 18446744073709551616 \<longrightarrow>
      unat (sum_val (handle_stdin input n)) = reference_scan input) \<and>
   (r \<noteq> - 1 \<longrightarrow>
      sum_val (handle_file stream n pos r)
        = of_nat (reference_scan (take (unat r + 1 - unat pos) stream))) \<and>
   sum_val (handle_stdin ''abc123def456'' n) = 579 \<and>
   sum_val (handle_stdin ''12 3'' n) = 123"
proof -
  have a: "sum_val (handle_stdin input n) = of_nat (reference_scan input)"
    by (rule handle_stdin_reference)
  have b: "unat (sum_val (handle_stdin input n)) = reference_scan input mod 2 ^ 64"
    unfolding a by (simp add: unat_of_nat)
  have c: "r \<noteq> - 1 \<longrightarrow> sum_val (handle_file stream n pos r)
        = of_nat (reference_scan (take (unat r + 1 - unat pos) stream))"
    using stdin_loop_acc[OF pending_init, where bs = "take (unat r + 1 - unat pos) stream"]
    by (simp add: handle_file_def file_loop_take reference_scan_def scan_init_def)
  have d: "reference_scan ''abc123def456'' = 579"
    by (simp add: reference_scan_def group_sum_def decimal_value_def isdigit_def)
  have e: "reference_scan ''12 3'' = 123"
    by (simp add: reference_scan_def group_sum_def decimal_value_def isdigit_def)
  have f: "sum_val (handle_stdin ''abc123def456'' n) = 579"
    unfolding handle_stdin_reference d by simp
  have g: "sum_val (handle_stdin ''12 3'' n) = 123"
    unfolding handle_stdin_reference e by simp
  have h: "child_num (handle_stdin input n) = n"
    by (simp add: handle_stdin_def)
  have i: "333 * length input < 18446744073709551616 \<longrightarrow>
      unat (sum_val (handle_stdin input n)) = reference_scan input"
  proof
    assume "333 * length input < 18446744073709551616"
    then have "reference_scan input < 18446744073709551616"
      using reference_scan_bound[of input] by linarith
    then show "unat (sum_val (handle_stdin input n)) = reference_scan input"
      unfolding a by (simp add: unat_of_nat)
  qed
  show ?thesis
    using a b c f g h i by blast
qed

theorem worker_sum_is_reference_scan_witness:
  "(3 :: u64) \<noteq> - 1 \<and> sum_val (handle_file ''12a3456'' 0 0 3) = 123 \<and>
   333 * length ''12a3456'' < (18446744073709551616 :: nat) \<and>
   unat (sum_val (handle_stdin ''12a3456'' 0)) = 579"
proof -
  have "reference_scan (take (unat (3 :: u64) + 1 - unat (0 :: u64)) ''12a3456'') = 123"
    by (simp add: reference_scan_def group_sum_def decimal_value_def isdigit_def)
  moreover have "reference_scan ''12a3456'' = 579"
    by (simp add: reference_scan_def group_sum_def decimal_value_def isdigit_def)
  ultimately show ?thesis
    using worker_sum_is_reference_scan[of "''12a3456''" 0 3 "''12a3456''" 0] by simp
qed


section \<open>The polling loop\<close>

lemma handle_event_ok:
  "read_ok ev \<Longrightarrow>
   handle_event ev st =
     st\<lparr>out := out st @ [child_line (result ev)],
        final_sum := final_sum st + sum_val (result ev),
        waiting_for := waiting_for st - 1,
        watched := removeAll (ev_fd ev) (watched st)\<rparr>"
  by (simp add: handle_event_def read_ok_def)

lemma handle_event_not_ok:
  "\<not> read_ok ev \<Longrightarrow> handle_event ev st = st\<lparr>watched := removeAll (ev_fd ev) (watched st)\<rparr>"
  by (simp add: handle_event_def read_ok_def)

lemma unat_pred: "(0 :: u16) < w \<Longrightarrow> unat w = Suc (unat (w - 1))"
  by (simp add: unat_minus_one word_gt_0 unat_gt_0)

lemma unat_waiting_zero: "\<not> (0 :: u16) < w \<Longrightarrow> unat w = 0"
  by (simp add: word_gt_0)

lemma poll_loop_returns_iff:
  "(poll_loop evs st \<noteq> None) = (unat (waiting_for st) \<le> length (filter read_ok evs))"
proof (induction evs arbitrary: st)
  case Nil
  then show ?case by (simp add: word_gt_0 unat_eq_zero)
next
  case (Cons ev rest)
  show ?case
  proof (cases "0 < waiting_for st")
    case False
    then show ?thesis by (simp add: unat_waiting_zero)
  next
    case True
    show ?thesis
    proof (cases "read_ok ev")
      case True
      with \<open>0 < waiting_for st\<close> show ?thesis
        using Cons.IH[of "handle_event ev st"] unat_pred[of "waiting_for st"]
        by (simp add: handle_event_ok)
    next
      case False
      with \<open>0 < waiting_for st\<close> show ?thesis
        using Cons.IH[of "handle_event ev st"]
        by (simp add: handle_event_not_ok)
    qed
  qed
qed

lemma poll_loop_result:
  "poll_loop evs st = Some s \<Longrightarrow>
     waiting_for s = 0 \<and>
     out s = out st @ map child_line (consumed evs st) \<and>
     final_sum s = final_sum st + sum_list (map sum_val (consumed evs st))"
proof (induction evs arbitrary: st)
  case Nil
  then show ?case by (simp add: consumed_def word_gt_0 split: if_splits)
next
  case (Cons ev rest)
  show ?case
  proof (cases "0 < waiting_for st")
    case False
    then show ?thesis using Cons.prems by (simp add: consumed_def unat_waiting_zero word_gt_0)
  next
    case True
    then have run: "poll_loop rest (handle_event ev st) = Some s"
      using Cons.prems by simp
    show ?thesis
    proof (cases "read_ok ev")
      case True
      have "consumed (ev # rest) st = result ev # consumed rest (handle_event ev st)"
        using True \<open>0 < waiting_for st\<close> unat_pred[of "waiting_for st"]
        by (simp add: consumed_def handle_event_ok)
      then show ?thesis
        using Cons.IH[OF run] True by (simp add: handle_event_ok add.assoc)
    next
      case False
      have "consumed (ev # rest) st = consumed rest (handle_event ev st)"
        using False by (simp add: consumed_def handle_event_not_ok)
      then show ?thesis
        using Cons.IH[OF run] False by (simp add: handle_event_not_ok)
    qed
  qed
qed


lemma poll_states_hd: "hd (poll_states evs st) = st"
  by (cases evs) simp_all

lemma poll_states_nonempty: "poll_states evs st \<noteq> []"
  by (cases evs) simp_all

lemma handle_event_step:
  "0 < waiting_for st \<Longrightarrow>
   waiting_for (handle_event ev st) \<le> waiting_for st \<and>
   (final_sum (handle_event ev st) = final_sum st \<or>
    (0 < bytes ev \<and> final_sum (handle_event ev st) = final_sum st + sum_val (result ev)))"
  by (cases "read_ok ev")
     (auto simp: handle_event_ok handle_event_not_ok read_ok_def word_le_nat_alt dest: unat_pred)

lemma poll_states_successively:
  "successively (\<lambda>a b. waiting_for b \<le> waiting_for a \<and>
       (final_sum b = final_sum a \<or>
        (\<exists>ev\<in>set evs. 0 < bytes ev \<and> final_sum b = final_sum a + sum_val (result ev))))
     (poll_states evs st)"
proof (induction evs arbitrary: st)
  case Nil
  then show ?case by simp
next
  case (Cons ev rest)
  let ?P = "\<lambda>E a b. waiting_for b \<le> waiting_for a \<and>
       (final_sum b = final_sum a \<or>
        (\<exists>ev\<in>set E. 0 < bytes ev \<and> final_sum b = final_sum a + sum_val (result ev)))"
  show ?case
  proof (cases "0 < waiting_for st")
    case False
    then show ?thesis by simp
  next
    case True
    have "successively (?P rest) (poll_states rest (handle_event ev st))"
      by (rule Cons.IH)
    then have tl: "successively (?P (ev # rest)) (poll_states rest (handle_event ev st))"
      by (rule successively_mono) auto
    have hd: "?P (ev # rest) st (hd (poll_states rest (handle_event ev st)))"
      using handle_event_step[OF True, of ev] by (auto simp: poll_states_hd)
    show ?thesis
      using True tl hd poll_states_nonempty[of rest "handle_event ev st"]
      by (cases "poll_states rest (handle_event ev st)") (simp_all add: successively_Cons)
  qed
qed

lemma poll_states_bounded:
  "s \<in> set (poll_states evs st) \<Longrightarrow> waiting_for s \<le> waiting_for st"
proof (induction evs arbitrary: st)
  case Nil
  then show ?case by simp
next
  case (Cons ev rest)
  show ?case
  proof (cases "0 < waiting_for st")
    case False
    then show ?thesis using Cons.prems by simp
  next
    case True
    then show ?thesis
      using Cons.prems Cons.IH[of "handle_event ev st"] handle_event_step[OF True, of ev]
      by auto
  qed
qed


lemma deliverable_length: "deliverable w evs \<Longrightarrow> length evs \<le> length w"
proof (induction evs arbitrary: w)
  case Nil
  then show ?case by simp
next
  case (Cons ev rest)
  then have "length rest \<le> length (removeAll (ev_fd ev) w)" by simp
  moreover have "length (removeAll (ev_fd ev) w) < length w"
    using Cons.prems by (simp add: length_removeAll_less)
  ultimately show ?case by simp
qed

lemma failed_read_blocks:
  assumes "length evs \<le> unat (waiting_for st)" "ev \<in> set evs" "bytes ev \<le> 0"
  shows "poll_loop evs st = None"
proof -
  have "length (filter read_ok evs) < length evs"
    using assms(2,3) by (intro length_filter_less[of ev]) (auto simp: read_ok_def)
  then show ?thesis
    using poll_loop_returns_iff[of evs st] assms(1) by simp
qed

text \<open>
  Claim C1, as amended. When a worker's channel gives a read of zero bytes (or an error),
  the coordinator adds nothing to \<^verbatim>\<open>final_sum\<close>, writes no line, and does not decrement
  \<^verbatim>\<open>waiting_for\<close>: it only stops watching the descriptor. The loop ends exactly when
  \<^verbatim>\<open>waiting_for\<close> reads have returned more than zero bytes, so a run in which every
  descriptor is reported at most once and one read fails never reaches \<^verbatim>\<open>waiting_for == 0\<close>.
\<close>

theorem failed_read_is_not_counted:
  "(bytes ev \<le> 0 \<longrightarrow>
      final_sum (handle_event ev st) = final_sum st \<and>
      waiting_for (handle_event ev st) = waiting_for st \<and>
      out (handle_event ev st) = out st \<and>
      watched (handle_event ev st) = removeAll (ev_fd ev) (watched st)) \<and>
   ((poll_loop evs st \<noteq> None) = (unat (waiting_for st) \<le> length (filter read_ok evs))) \<and>
   (deliverable (watched st) evs \<and> length (watched st) \<le> unat (waiting_for st) \<and>
    (\<exists>e\<in>set evs. bytes e \<le> 0) \<longrightarrow> poll_loop evs st = None)"
proof -
  have a: "bytes ev \<le> 0 \<longrightarrow>
      final_sum (handle_event ev st) = final_sum st \<and>
      waiting_for (handle_event ev st) = waiting_for st \<and>
      out (handle_event ev st) = out st \<and>
      watched (handle_event ev st) = removeAll (ev_fd ev) (watched st)"
    by (simp add: handle_event_def)
  have c: "deliverable (watched st) evs \<and> length (watched st) \<le> unat (waiting_for st) \<and>
    (\<exists>e\<in>set evs. bytes e \<le> 0) \<longrightarrow> poll_loop evs st = None"
    using deliverable_length[of "watched st" evs] failed_read_blocks[of evs st]
    by (meson le_trans)
  show ?thesis
    using a c poll_loop_returns_iff[of evs st] by blast
qed

theorem failed_read_is_not_counted_witness:
  "bytes closed_channel \<le> 0 \<and> deliverable (watched one_pending) [closed_channel] \<and>
   length (watched one_pending) \<le> unat (waiting_for one_pending) \<and>
   waiting_for (handle_event closed_channel one_pending) = 1 \<and>
   poll_loop [closed_channel] one_pending = None"
  using failed_read_is_not_counted[of closed_channel one_pending "[closed_channel]"]
  by (simp add: closed_channel_def one_pending_def)

text \<open>
  The claim as stated fails: one worker on the file \<open>in.dat\<close>, whose channel closes with
  zero bytes. \<^verbatim>\<open>waiting_for\<close> stays 1 and the coordinator blocks.
\<close>

theorem failed_worker_counterexample:
  "bytes closed_channel = 0 \<and>
   waiting_for (handle_event closed_channel one_pending) \<noteq> waiting_for one_pending - 1 \<and>
   poll_loop [closed_channel] one_pending = None \<and>
   outcome (main (file_env ''abc123def456'' [closed_channel]) [(INPUT_FILE, ''in.dat'')]) = Blocked"
  by code_simp




text \<open>
  Claim C10. When every worker's record is delivered (as many accepted reads as workers
  waited for), the loop ends and the final sum is the initial one plus the sum of the
  records' sums: two orders of arrival, or any two sequences of records with the same
  multiset of sums, give the same final sum.
\<close>

theorem final_sum_independent_of_order:
  assumes "mset (map (\<lambda>ev. sum_val (result ev)) evs') = mset (map (\<lambda>ev. sum_val (result ev)) evs)"
    and "\<forall>ev\<in>set evs. 0 < bytes ev" and "\<forall>ev\<in>set evs'. 0 < bytes ev"
    and "length evs = unat (waiting_for st)"
  shows "\<exists>s s'. poll_loop evs st = Some s \<and> poll_loop evs' st = Some s' \<and>
           final_sum s' = final_sum s \<and>
           final_sum s = final_sum st + sum_list (map (\<lambda>ev. sum_val (result ev)) evs)"
proof -
  have len: "length evs' = length evs"
    using assms(1) by (metis length_map size_mset)
  have f: "filter read_ok evs = evs" "filter read_ok evs' = evs'"
    using assms(2,3) by (simp_all add: read_ok_def)
  obtain s where s: "poll_loop evs st = Some s"
    using poll_loop_returns_iff[of evs st] f assms(4) by auto
  obtain s' where s': "poll_loop evs' st = Some s'"
    using poll_loop_returns_iff[of evs' st] f assms(4) len by auto
  have c: "consumed evs st = map result evs" "consumed evs' st = map result evs'"
    using f assms(4) len by (simp_all add: consumed_def)
  have "final_sum s = final_sum st + sum_list (map (\<lambda>ev. sum_val (result ev)) evs)"
    using poll_loop_result[OF s] c by (simp add: comp_def)
  moreover have "final_sum s' = final_sum st + sum_list (map (\<lambda>ev. sum_val (result ev)) evs')"
    using poll_loop_result[OF s'] c by (simp add: comp_def)
  moreover have "sum_list (map (\<lambda>ev. sum_val (result ev)) evs')
                 = sum_list (map (\<lambda>ev. sum_val (result ev)) evs)"
    using assms(1) by (metis sum_mset_sum_list)
  ultimately show ?thesis using s s' by simp
qed


section \<open>The children created\<close>

declare create_children.simps [simp del]

lemma walk_to_end_length: "walk_to_end lst n = n + int (length lst)"
  by (induction lst arbitrary: n) simp_all

lemma add_child_Inr:
  "add_child env lst a b = Inr lst' \<Longrightarrow>
   lst' = lst @ [\<lparr>fds = the (pipe_result env (length lst)), seek_to = of_int a, read_to = of_int b,
                  info_child_num = of_nat (length lst)\<rparr>]"
  by (auto simp: add_child_def walk_to_end_length Let_def split: option.splits if_splits)

lemma create_children_done:
  "\<not> i < uint (child_count po) \<Longrightarrow> create_children env po i lst = Inr lst"
  by (subst create_children.simps) simp

lemma create_children_from:
  "create_children env po (int k) lst = Inr cs \<Longrightarrow> length lst = k \<Longrightarrow>
   k \<le> unat (child_count po) \<Longrightarrow>
   cs = lst @ map (child_of env po) [k..<unat (child_count po)]"
proof (induction "unat (child_count po) - k" arbitrary: k lst)
  case 0
  then have "k = unat (child_count po)" by simp
  then have "\<not> int k < uint (child_count po)" by simp
  then show ?case using "0.prems"(1) \<open>k = unat (child_count po)\<close>
    by (simp add: create_children_done)
next
  case (Suc d)
  then have lt: "k < unat (child_count po)" by simp
  then have c: "int k < uint (child_count po)" by (metis uint_nat of_nat_less_iff)
  let ?s = "of_int (int k) * block_size po"
  let ?r = "if int k + 1 = uint (child_count po) then - 1
            else of_int (int k + 1) * block_size po - 1"
  from Suc.prems(1) c obtain lst' where
    a: "add_child env lst (to_int ?s) (to_int ?r) = Inr lst'" and
    r: "create_children env po (int k + 1) lst' = Inr cs"
    by (auto simp: create_children.simps[of env po "int k" lst] Let_def split: sum.splits)
  have e: "(int k + 1 = uint (child_count po)) = (Suc k = unat (child_count po))"
    by (metis uint_nat of_nat_eq_iff of_nat_Suc add.commute plus_1_eq_Suc of_nat_1 of_nat_add)
  have lst': "lst' = lst @ [child_of env po k]"
    using add_child_Inr[OF a] Suc.prems(2) e by (simp add: child_of_def add.commute)
  have "cs = lst' @ map (child_of env po) [Suc k..<unat (child_count po)]"
    using Suc.hyps(1)[of "Suc k" lst'] Suc.hyps(2) r lst' Suc.prems(2) lt
    by (simp add: add.commute)
  then show ?case using lst' lt by (simp add: upt_conv_Cons)
qed

lemma create_children_Inr:
  "create_children env po 0 [] = Inr cs \<Longrightarrow> cs = map (child_of env po) [0..<unat (child_count po)]"
  using create_children_from[of env po 0 "[]" cs] by simp


section \<open>Blocks and segments\<close>

lemma unat_of_nat_small: "n < 2 ^ 64 \<Longrightarrow> unat (of_nat n :: u64) = n"
  by (simp add: unat_of_nat)

lemma uint_minus_one_64: "uint (- 1 :: u64) = 18446744073709551615"
  by (simp add: unsigned_minus_1_eq_mask mask_eq_exp_minus_1)

lemma to_int_minus_one: "(of_int (to_int (- 1)) :: u64) = - 1"
  by (simp add: to_int_def uint_minus_one_64)

lemma to_int_small: "unat x < 2147483648 \<Longrightarrow> (of_int (to_int x) :: u64) = x"
proof -
  assume a: "unat x < 2147483648"
  then have "int (unat x) < 2147483648" by linarith
  then have "uint x < 2147483648" by simp
  moreover have "0 \<le> uint x" by simp
  ultimately have "to_int x = uint x" by (simp add: to_int_def)
  then show ?thesis by simp
qed

lemma unat_ucast_16: "unat (ucast (w :: u64) :: u16) = unat w mod 65536"
  by (simp add: unsigned_ucast_eq take_bit_eq_mod)

lemma unat_ucast_64: "unat (ucast (w :: u16) :: u64) = unat w"
proof -
  have "unat w < 2 ^ 16" using unsigned_less[of w, where 'a = nat] by simp
  then have "unat w < 2 ^ 64" by (rule less_le_trans) simp
  then show ?thesis by (simp add: unsigned_ucast_eq take_bit_nat_eq_self)
qed

lemma sizing_bound:
  assumes "sizing po = Inr po'"
  shows "unat (child_count po') * unat (block_size po') \<le> unat (st_size po) \<and>
         st_size po' = st_size po \<and> input_file po' = input_file po"
proof (cases "block_size po > 0")
  case True
  then have po': "po' = po\<lparr>child_count := ucast (st_size po div block_size po)\<rparr>"
    using assms by (simp add: sizing_def)
  have q: "unat (child_count po') \<le> unat (st_size po) div unat (block_size po)"
    unfolding po' by (simp add: unat_ucast_16 unat_div)
  have "unat (child_count po') * unat (block_size po)
          \<le> (unat (st_size po) div unat (block_size po)) * unat (block_size po)"
    using q by (rule mult_le_mono1)
  also have "\<dots> \<le> unat (st_size po)" by simp
  finally show ?thesis using po' by simp
next
  case False
  then have po': "po' = po\<lparr>block_size := st_size po div ucast (child_count po)\<rparr>"
    using assms by (simp add: sizing_def split: if_splits)
  have "unat (ucast (child_count po) :: u64) = unat (child_count po)"
    by (rule unat_ucast_64)
  then have "unat (block_size po') = unat (st_size po) div unat (child_count po)"
    using po' by (simp add: unat_div)
  then show ?thesis using po' by simp
qed


lemma unat_of_nat_times:
  assumes "i * unat (b :: u64) < 2147483648" "b \<noteq> 0"
  shows "unat (of_nat i * b) = i * unat b"
proof -
  have "0 < unat b" using assms(2) by (simp add: unat_gt_0)
  then have "i \<le> i * unat b" by simp
  then have "i < 2147483648" using assms(1) by linarith
  then have "i < 2 ^ 64" by simp
  then have i: "unat (of_nat i :: u64) = i" by (rule unat_of_nat_small)
  have "unat (of_nat i :: u64) * unat b < 2 ^ LENGTH(64)"
    using assms(1) i by simp
  then show ?thesis using i unat_mult_lem[of "of_nat i :: u64" b] by simp
qed

lemma child_of_seek_to:
  assumes "i * unat (block_size po) < 2147483648" "block_size po \<noteq> 0"
  shows "seek_to (child_of env po i) = of_nat i * block_size po"
    and "unat (seek_to (child_of env po i)) = i * unat (block_size po)"
proof -
  have u: "unat (of_nat i * block_size po) = i * unat (block_size po)"
    using assms by (rule unat_of_nat_times)
  then show "seek_to (child_of env po i) = of_nat i * block_size po"
    using assms(1) by (simp add: child_of_def to_int_small)
  then show "unat (seek_to (child_of env po i)) = i * unat (block_size po)"
    using u by simp
qed

lemma child_of_read_to_last:
  "Suc i = unat (child_count po) \<Longrightarrow> read_to (child_of env po i) = - 1"
  by (simp add: child_of_def to_int_minus_one)

lemma child_of_read_to_inner:
  assumes "Suc i * unat (block_size po) < 2147483648" "block_size po \<noteq> 0"
    "Suc i \<noteq> unat (child_count po)"
  shows "unat (read_to (child_of env po i)) = Suc i * unat (block_size po) - 1"
    and "read_to (child_of env po i) \<noteq> - 1"
proof -
  let ?w = "of_nat (Suc i) * block_size po"
  have u: "unat ?w = Suc i * unat (block_size po)"
    using assms(1,2) by (rule unat_of_nat_times)
  have "0 < unat (block_size po)" using assms(2) by (simp add: unat_gt_0)
  then have "0 < unat ?w" using u by simp
  then have nz: "?w \<noteq> 0" by (simp add: unat_gt_0)
  then have m: "unat (?w - 1) = Suc i * unat (block_size po) - 1"
    using u by (simp add: unat_minus_one)
  then have small: "unat (?w - 1) < 2147483648" using assms(1) by simp
  have r: "read_to (child_of env po i) = ?w - 1"
    using assms(3) small by (simp add: child_of_def to_int_small)
  show "unat (read_to (child_of env po i)) = Suc i * unat (block_size po) - 1"
    using r m by simp
  have "unat (- 1 :: u64) = 18446744073709551615"
    by (simp add: unsigned_minus_1_eq_mask mask_eq_exp_minus_1)
  then show "read_to (child_of env po i) \<noteq> - 1"
    using r small by auto
qed

lemma concat_blocks:
  "concat (map (\<lambda>i. [i * S ..< Suc i * S]) [0..<m]) = [0 ..< m * S]"
proof (induction m)
  case 0
  then show ?case by simp
next
  case (Suc m)
  have "[0 ..< m * S + S] = [0 ..< m * S] @ [m * S ..< m * S + S]"
    by (rule upt_add_eq_append) simp
  then show ?case using Suc by (simp add: add.commute)
qed

lemma offsets_read_child:
  assumes bound: "unat (child_count po) * unat (block_size po) \<le> unat (st_size po)"
    and small: "unat (st_size po) < 2147483648"
    and nz: "block_size po \<noteq> 0"
    and i: "i < unat (child_count po)"
  shows "offsets_read po (child_of env po i) =
           (if Suc i = unat (child_count po)
            then [i * unat (block_size po) ..< unat (st_size po)]
            else [i * unat (block_size po) ..< Suc i * unat (block_size po)])"
proof -
  let ?S = "unat (block_size po)" and ?N = "unat (child_count po)" and ?L = "unat (st_size po)"
  have le: "Suc i * ?S \<le> ?N * ?S" using i by (simp add: mult_le_mono1 Suc_leI del: mult_Suc)
  then have b1: "Suc i * ?S \<le> ?L" using bound by linarith
  then have b2: "Suc i * ?S < 2147483648" using small by linarith
  have "i * ?S \<le> Suc i * ?S" by simp
  then have b3: "i * ?S < 2147483648" using b2 by linarith
  have seek: "unat (seek_to (child_of env po i)) = i * ?S"
    using child_of_seek_to(2)[OF b3 nz] .
  show ?thesis
  proof (cases "Suc i = ?N")
    case True
    then show ?thesis
      using seek child_of_read_to_last[OF True, of env] by (simp add: offsets_read_def)
  next
    case False
    have "0 < ?S" using nz by (simp add: unat_gt_0)
    then have pos: "0 < Suc i * ?S" by simp
    have "unat (read_to (child_of env po i)) + 1 = Suc i * ?S"
      using child_of_read_to_inner(1)[OF b2 nz False, of env] pos by linarith
    then show ?thesis
      using seek child_of_read_to_inner(2)[OF b2 nz False, of env] False b1
      by (simp add: offsets_read_def min_def del: mult_Suc)
  qed
qed

lemma offsets_partition:
  assumes bound: "unat (child_count po) * unat (block_size po) \<le> unat (st_size po)"
    and small: "unat (st_size po) < 2147483648"
    and nz: "block_size po \<noteq> 0"
    and n: "child_count po \<noteq> 0"
  shows "concat (map (\<lambda>i. offsets_read po (child_of env po i)) [0..<unat (child_count po)])
           = [0 ..< unat (st_size po)]"
proof -
  let ?S = "unat (block_size po)" and ?N = "unat (child_count po)" and ?L = "unat (st_size po)"
  obtain m where m: "?N = Suc m"
    using n by (metis unat_gt_0 gr0_implies_Suc)
  have inner: "map (\<lambda>i. offsets_read po (child_of env po i)) [0..<m]
                 = map (\<lambda>i. [i * ?S ..< Suc i * ?S]) [0..<m]"
    using offsets_read_child[OF bound small nz, of _ env] m
    by (intro map_cong) (auto simp del: mult_Suc)
  have last: "offsets_read po (child_of env po m) = [m * ?S ..< ?L]"
    using offsets_read_child[OF bound small nz, of m env] m by simp
  have "m * ?S \<le> ?L" using bound m by simp
  then have split: "[0 ..< ?L] = [0 ..< m * ?S] @ [m * ?S ..< ?L]"
    by (metis le_add_diff_inverse upt_add_eq_append zero_le)
  let ?f = "\<lambda>i. offsets_read po (child_of env po i)"
  have "concat (map ?f [0..<Suc m]) = concat (map ?f [0..<m]) @ ?f m"
    by simp
  also have "\<dots> = concat (map (\<lambda>i. [i * ?S ..< Suc i * ?S]) [0..<m]) @ [m * ?S ..< ?L]"
    by (simp only: inner last)
  also have "\<dots> = [0 ..< m * ?S] @ [m * ?S ..< ?L]"
    by (simp only: concat_blocks)
  finally show ?thesis
    unfolding m using split by (simp only:)
qed


lemma take_drop_nth:
  "take n (drop k xs) = map ((!) xs) [k ..< min (length xs) (k + n)]"
  by (rule nth_equalityI) (auto simp: min_def split: if_splits)

lemma handle_file_reference:
  "r \<noteq> - 1 \<Longrightarrow>
   sum_val (handle_file stream n pos r)
     = of_nat (reference_scan (take (unat r + 1 - unat pos) stream))"
  using stdin_loop_acc[OF pending_init, where bs = "take (unat r + 1 - unat pos) stream"]
  by (simp add: handle_file_def file_loop_take reference_scan_def scan_init_def)

lemma child_handler_file:
  assumes "input_file po \<noteq> ''-''" and "files env (input_file po) = Some content"
    and len: "unat (st_size po) = length content" and small: "length content < 9223372036854775808"
    and seek: "unat (seek_to ci) < 9223372036854775808"
  shows "child_handler env po ci =
           Some \<lparr>child_num = info_child_num ci,
                 sum_val = of_nat (reference_scan (segment content po ci))\<rparr>"
proof -
  let ?r = "if read_to ci = - 1 then st_size po else read_to ci"
  let ?k = "unat (seek_to ci)"
  have m1: "unat (- 1 :: u64) = 18446744073709551615"
    by (simp add: unsigned_minus_1_eq_mask mask_eq_exp_minus_1)
  have "st_size po \<noteq> - 1" using len small m1 by auto
  then have r: "?r \<noteq> - 1" by simp
  have "\<not> (9223372036854775808 :: u64) \<le> seek_to ci"
    using seek by (simp add: word_le_nat_alt)
  then have o: "open_and_seek_to content (seek_to ci) = drop ?k content"
    by (simp add: open_and_seek_to_def)
  have "take (unat ?r + 1 - ?k) (drop ?k content)
          = map ((!) content) [?k ..< min (length content) (?k + (unat ?r + 1 - ?k))]"
    by (rule take_drop_nth)
  also have "\<dots> = map ((!) content) [?k ..< min (length content) (unat ?r + 1)]"
    by (cases "?k \<le> unat ?r + 1") (simp_all add: min_def)
  also have "\<dots> = segment content po ci"
    by (simp add: segment_def offsets_read_def len)
  finally have t: "take (unat ?r + 1 - ?k) (drop ?k content) = segment content po ci" .
  have "sum_val (handle_file (drop ?k content) (info_child_num ci) (seek_to ci) ?r)
          = of_nat (reference_scan (segment content po ci))"
    using handle_file_reference[OF r, of "drop ?k content" "info_child_num ci" "seek_to ci"] t
    by simp
  moreover have "child_num (handle_file (drop ?k content) (info_child_num ci) (seek_to ci) ?r)
          = info_child_num ci"
    by (simp add: handle_file_def)
  ultimately have "handle_file (drop ?k content) (info_child_num ci) (seek_to ci) ?r
          = \<lparr>child_num = info_child_num ci,
             sum_val = of_nat (reference_scan (segment content po ci))\<rparr>"
    by (simp add: handle_file_def)
  then show ?thesis
    using assms(1,2) o by (simp add: child_handler_def Let_def)
qed

lemma group_sum_append:
  assumes "3 dvd length ds"
  shows "group_sum (ds @ es) = group_sum ds + group_sum es"
proof -
  from assms obtain k where "length ds = 3 * k" by (auto simp: dvd_def)
  then show ?thesis
  proof (induction k arbitrary: ds)
    case 0
    then show ?case by (simp add: group_sum_def)
  next
    case (Suc k)
    then have "length ds = Suc (Suc (Suc (3 * k)))" by simp
    then obtain a b c rest where ds: "ds = a # b # c # rest" and r: "length rest = 3 * k"
      by (auto simp: length_Suc_conv)
    have "group_sum (rest @ es) = group_sum rest + group_sum es"
      using Suc.IH[OF r] .
    then show ?case by (simp add: ds group_sum_def)
  qed
qed

lemma reference_scan_concat:
  "\<forall>k<length segs. 3 dvd length (filter isdigit (concat (take k segs))) \<Longrightarrow>
   reference_scan (concat segs) = sum_list (map reference_scan segs)"
proof (induction segs rule: rev_induct)
  case Nil
  then show ?case by (simp add: reference_scan_def group_sum_def)
next
  case (snoc x xs)
  have "\<forall>k<length xs. 3 dvd length (filter isdigit (concat (take k xs)))"
    using snoc.prems by (auto simp: less_Suc_eq)
  then have ih: "reference_scan (concat xs) = sum_list (map reference_scan xs)"
    by (rule snoc.IH)
  have "3 dvd length (filter isdigit (concat (take (length xs) (xs @ [x]))))"
    using snoc.prems[rule_format, of "length xs"] by simp
  then have "3 dvd length (filter isdigit (concat xs))" by simp
  then have "reference_scan (concat xs @ x) = reference_scan (concat xs) + reference_scan x"
    by (simp add: reference_scan_def group_sum_append)
  then show ?case using ih by simp
qed


section \<open>Partition and aggregation\<close>

lemma poll_loop_all_ok:
  assumes "\<forall>ev\<in>set evs. read_ok ev" and "length evs = unat (waiting_for st)"
  shows "\<exists>s. poll_loop evs st = Some s \<and>
          final_sum s = final_sum st + sum_list (map (\<lambda>ev. sum_val (result ev)) evs) \<and>
          out s = out st @ map (\<lambda>ev. child_line (result ev)) evs"
proof -
  have f: "filter read_ok evs = evs" using assms(1) by simp
  obtain s where s: "poll_loop evs st = Some s"
    using poll_loop_returns_iff[of evs st] f assms(2) by auto
  have "consumed evs st = map result evs"
    using f assms(2) by (simp add: consumed_def)
  then show ?thesis
    using poll_loop_result[OF s] s by (simp add: comp_def)
qed

text \<open>
  The claim as stated fails at its own scenario: on \<open>000111222333\<close> split 6/6 the second
  worker's sum is 222 + 333 = 555, not 333, and the final sum is 666, not 444. (666 is
  also the single-pass sum.)
\<close>

theorem scenario_c_counterexample:
  "sized_options (file_env ''000111222333'' scenario_c_events) scenario_c_args
     = Some scenario_c_options \<and>
   children (main (file_env ''000111222333'' scenario_c_events) scenario_c_args)
     = scenario_c_children \<and>
   map (child_handler (file_env ''000111222333'' scenario_c_events) scenario_c_options)
       scenario_c_children
     = [Some \<lparr>child_num = 0, sum_val = 111\<rparr>, Some \<lparr>child_num = 1, sum_val = 555\<rparr>] \<and>
   output_lines (main (file_env ''000111222333'' scenario_c_events) scenario_c_args)
     = [''File size: 12'', ''Child 1 Sum: 555'', ''Child 0 Sum: 111'', ''Final Sum: 666''] \<and>
   sum_val (handle_stdin ''000111222333'' 0) = 666"
  by code_simp

text \<open>
  Where no offset reaches \<open>2^31\<close> the blocks are the ones computed in \<^verbatim>\<open>main\<close>. For a file of
  length \<open>L\<close> below \<open>2^31\<close>, let \<open>N\<close> and \<open>S\<close> be the child count and block size after sizing
  (\<open>N = floor(L/S)\<close> stored in 16 bits when a block size is given, else \<open>S = floor(L/N)\<close>),
  both at least 1. Then \<open>N\<close> children are created, child \<open>i\<close> has number \<open>i\<close> and starts at
  \<open>i*S\<close>, reads up to \<open>(i+1)*S - 1\<close> if it is not the last and to the end of the file if it
  is, and the offsets the children read, one child after the other, are \<open>0, ..., L-1\<close>.
\<close>

lemma blocks_partition_below_2gib:
  assumes "sizing po = Inr po'" and "create_children env po' 0 [] = Inr cs"
    and "unat (st_size po) < 2147483648" and "block_size po' \<noteq> 0" and "child_count po' \<noteq> 0"
  shows "length cs = unat (child_count po') \<and>
    (block_size po > 0 \<longrightarrow> block_size po' = block_size po \<and>
       unat (child_count po') = (unat (st_size po) div unat (block_size po)) mod 65536) \<and>
    (\<not> block_size po > 0 \<longrightarrow> child_count po' = child_count po \<and>
       unat (block_size po') = unat (st_size po) div unat (child_count po)) \<and>
    (\<forall>i<length cs.
       info_child_num (cs ! i) = of_nat i \<and>
       unat (seek_to (cs ! i)) = i * unat (block_size po') \<and>
       (if Suc i = length cs then read_to (cs ! i) = - 1
        else unat (read_to (cs ! i)) = Suc i * unat (block_size po') - 1)) \<and>
    concat (map (offsets_read po') cs) = [0 ..< unat (st_size po)]"
proof -
  let ?S = "unat (block_size po')" and ?N = "unat (child_count po')" and ?L = "unat (st_size po')"
  have sb: "?N * ?S \<le> unat (st_size po)" "st_size po' = st_size po"
    using sizing_bound[OF assms(1)] by simp_all
  have bound: "?N * ?S \<le> ?L" using sb by simp
  have small: "?L < 2147483648" using sb assms(3) by simp
  have cs: "cs = map (child_of env po') [0..<?N]"
    using assms(2) by (rule create_children_Inr)
  then have len: "length cs = ?N" by simp
  have a: "block_size po > 0 \<longrightarrow> block_size po' = block_size po \<and>
       unat (child_count po') = (unat (st_size po) div unat (block_size po)) mod 65536"
    using assms(1) by (auto simp: sizing_def unat_ucast_16 unat_div)
  have b: "\<not> block_size po > 0 \<longrightarrow> child_count po' = child_count po \<and>
       unat (block_size po') = unat (st_size po) div unat (child_count po)"
    using assms(1) by (auto simp: sizing_def unat_ucast_64 unat_div split: if_splits)
  have c: "\<forall>i<length cs.
       info_child_num (cs ! i) = of_nat i \<and>
       unat (seek_to (cs ! i)) = i * ?S \<and>
       (if Suc i = length cs then read_to (cs ! i) = - 1
        else unat (read_to (cs ! i)) = Suc i * ?S - 1)"
  proof (intro allI impI)
    fix i assume i: "i < length cs"
    then have iN: "i < ?N" using len by simp
    have ci: "cs ! i = child_of env po' i" using cs iN by simp
    have "Suc i * ?S \<le> ?N * ?S" using iN by (simp add: mult_le_mono1 Suc_leI del: mult_Suc)
    then have b2: "Suc i * ?S < 2147483648" using bound small by linarith
    have "i * ?S \<le> Suc i * ?S" by simp
    then have b3: "i * ?S < 2147483648" using b2 by linarith
    have s: "unat (seek_to (cs ! i)) = i * ?S"
      unfolding ci using child_of_seek_to(2)[OF b3 assms(4)] .
    have r: "if Suc i = length cs then read_to (cs ! i) = - 1
             else unat (read_to (cs ! i)) = Suc i * ?S - 1"
    proof (cases "Suc i = ?N")
      case True
      then show ?thesis unfolding ci using child_of_read_to_last[of i po' env] len by simp
    next
      case False
      then show ?thesis
        unfolding ci using child_of_read_to_inner(1)[OF b2 assms(4) False, of env] len by simp
    qed
    have "info_child_num (cs ! i) = of_nat i" unfolding ci by (simp add: child_of_def)
    then show "info_child_num (cs ! i) = of_nat i \<and>
       unat (seek_to (cs ! i)) = i * ?S \<and>
       (if Suc i = length cs then read_to (cs ! i) = - 1
        else unat (read_to (cs ! i)) = Suc i * ?S - 1)"
      using s r by blast
  qed
  have "concat (map (offsets_read po') cs)
          = concat (map (\<lambda>i. offsets_read po' (child_of env po' i)) [0..<?N])"
    unfolding cs by (simp add: comp_def)
  also have "\<dots> = [0 ..< ?L]"
    using offsets_partition[OF bound small assms(4,5)] .
  finally have d: "concat (map (offsets_read po') cs) = [0 ..< unat (st_size po)]"
    using sb by simp
  show ?thesis using len a b c d by blast
qed

lemma sum_list_perm:
  fixes f :: "'a \<Rightarrow> u64"
  assumes "mset xs = mset ys"
  shows "sum_list (map f xs) = sum_list (map f ys)"
proof -
  have "mset (map f xs) = mset (map f ys)" using assms by simp
  then show ?thesis by (metis sum_mset_sum_list)
qed

lemma sum_list_of_nat: "sum_list (map (\<lambda>x. (of_nat (g x) :: u64)) xs) = of_nat (sum_list (map g xs))"
  by (induction xs) simp_all

lemma segments_concat:
  "concat (map (segment content po) cs) = map ((!) content) (concat (map (offsets_read po) cs))"
  by (induction cs) (simp_all add: segment_def)

lemma segments_reference:
  assumes "\<forall>k<length cs.
             3 dvd length (filter isdigit (concat (map (segment content po) (take k cs))))"
  shows "sum_list (map (\<lambda>ci. reference_scan (segment content po ci)) cs)
           = reference_scan (concat (map (segment content po) cs))"
proof -
  have "\<forall>k<length (map (segment content po) cs).
          3 dvd length (filter isdigit (concat (take k (map (segment content po) cs))))"
    using assms by (simp only: take_map length_map)
  then have "reference_scan (concat (map (segment content po) cs))
               = sum_list (map reference_scan (map (segment content po) cs))"
    by (rule reference_scan_concat)
  then show ?thesis by (simp only: map_map comp_def)
qed

text \<open>
  Claim C7, as amended. Let the children's ranges cover the file's offsets once, in order,
  and let the number of digits before every range start be a multiple of three (no group
  of three digits lies across a boundary). Then each child's sum is the reference scan of
  its segment, and when all records are delivered, in whatever order, the loop ends with a
  final sum equal to the single-pass sum of the whole input. For \<open>000111222333\<close> split 6/6
  the sums are 111 and 555 and the final sum is 666.
\<close>

theorem multi_worker_sum_equals_single_pass:
  assumes "input_file po \<noteq> ''-''" and "files env (input_file po) = Some content"
    and "unat (st_size po) = length content" and "length content < 9223372036854775808"
    and seek: "\<forall>ci\<in>set cs. unat (seek_to ci) < 9223372036854775808"
    and part: "concat (map (offsets_read po) cs) = [0 ..< length content]"
    and whole: "\<forall>k<length cs.
                  3 dvd length (filter isdigit (concat (map (segment content po) (take k cs))))"
    and evs: "mset evs = mset (map (\<lambda>ci. delivered ci (the (child_handler env po ci))) cs)"
    and st: "unat (waiting_for st) = length cs" "final_sum st = 0"
  shows "(\<forall>ci\<in>set cs. child_handler env po ci =
            Some \<lparr>child_num = info_child_num ci,
                  sum_val = of_nat (reference_scan (segment content po ci))\<rparr>) \<and>
         (\<exists>s. poll_loop evs st = Some s \<and>
              final_sum s = sum_val (handle_stdin content 0))"
proof -
  let ?ds = "map (\<lambda>ci. delivered ci (the (child_handler env po ci))) cs"
  have each: "\<And>ci. ci \<in> set cs \<Longrightarrow> child_handler env po ci =
            Some \<lparr>child_num = info_child_num ci,
                  sum_val = of_nat (reference_scan (segment content po ci))\<rparr>"
    using child_handler_file[OF assms(1-4)] seek by blast
  have ok: "\<forall>ev\<in>set evs. read_ok ev"
  proof
    fix ev assume "ev \<in> set evs"
    then have "ev \<in> set ?ds" using evs by (metis set_mset_mset)
    then obtain ci where "ev = delivered ci (the (child_handler env po ci))" by auto
    then show "read_ok ev"
      by (simp add: delivered_def read_ok_def sizeof_child_result_def)
  qed
  have "length evs = length ?ds" using evs by (metis size_mset)
  then have len: "length evs = unat (waiting_for st)" using st(1) by simp
  obtain s where s: "poll_loop evs st = Some s"
      "final_sum s = final_sum st + sum_list (map (\<lambda>ev. sum_val (result ev)) evs)"
    using poll_loop_all_ok[OF ok len] by blast
  have m: "map (\<lambda>ev. sum_val (result ev)) ?ds
             = map (\<lambda>ci. of_nat (reference_scan (segment content po ci))) cs"
    using each by (simp add: delivered_def)
  have "sum_list (map (\<lambda>ev. sum_val (result ev)) evs)
          = sum_list (map (\<lambda>ev. sum_val (result ev)) ?ds)"
    using evs by (rule sum_list_perm)
  also have "\<dots> = sum_list (map (\<lambda>ci. of_nat (reference_scan (segment content po ci))) cs)"
    by (simp only: m)
  also have "\<dots> = of_nat (sum_list (map (\<lambda>ci. reference_scan (segment content po ci)) cs))"
    by (rule sum_list_of_nat)
  also have "\<dots> = of_nat (reference_scan (concat (map (segment content po) cs)))"
    by (simp only: segments_reference[OF whole])
  also have "\<dots> = of_nat (reference_scan content)"
    by (simp only: segments_concat part map_nth)
  finally have "sum_list (map (\<lambda>ev. sum_val (result ev)) evs) = of_nat (reference_scan content)" .
  then have "final_sum s = sum_val (handle_stdin content 0)"
    using s(2) st(2) by (simp add: handle_stdin_reference)
  then show ?thesis using each s(1) by blast
qed


lemma scenario_c_blocks:
  "sizing scenario_c_unsized = Inr scenario_c_options \<and>
   create_children (file_env ''000111222333'' []) scenario_c_options 0 [] = Inr scenario_c_children \<and>
   unat (st_size scenario_c_unsized) < 2147483648 \<and>
   block_size scenario_c_options \<noteq> 0 \<and> child_count scenario_c_options \<noteq> 0 \<and>
   map (offsets_read scenario_c_options) scenario_c_children
     = [[0, 1, 2, 3, 4, 5], [6, 7, 8, 9, 10, 11]] \<and>
   concat (map (offsets_read scenario_c_options) scenario_c_children) = [0 ..< 12]"
proof -
  have h1: "sizing scenario_c_unsized = Inr scenario_c_options" by code_simp
  have h2: "create_children (file_env ''000111222333'' []) scenario_c_options 0 []
              = Inr scenario_c_children" by code_simp
  have h3: "unat (st_size scenario_c_unsized) < 2147483648"
    by (simp add: scenario_c_unsized_def scenario_c_options_def)
  have h4: "block_size scenario_c_options \<noteq> 0" by (simp add: scenario_c_options_def)
  have h5: "child_count scenario_c_options \<noteq> 0" by (simp add: scenario_c_options_def)
  have h6: "map (offsets_read scenario_c_options) scenario_c_children
     = [[0, 1, 2, 3, 4, 5], [6, 7, 8, 9, 10, 11]]" by code_simp
  have "unat (st_size scenario_c_unsized) = 12"
    by (simp add: scenario_c_unsized_def scenario_c_options_def)
  then have "concat (map (offsets_read scenario_c_options) scenario_c_children) = [0 ..< 12]"
    using blocks_partition_below_2gib[OF h1 h2 h3 h4 h5] by simp
  then show ?thesis using h1 h2 h3 h4 h5 h6 by blast
qed

theorem multi_worker_sum_equals_single_pass_witness:
  "concat (map (offsets_read scenario_c_options) scenario_c_children)
     = [0 ..< length ''000111222333''] \<and>
   map (segment ''000111222333'' scenario_c_options) scenario_c_children
     = [''000111'', ''222333''] \<and>
   mset scenario_c_events
     = mset (map (\<lambda>ci. delivered ci
                     (the (child_handler (file_env ''000111222333'' scenario_c_events)
                             scenario_c_options ci))) scenario_c_children) \<and>
   (\<exists>s. poll_loop scenario_c_events scenario_c_waiting = Some s \<and> final_sum s = 666)"
proof -
  let ?env = "file_env ''000111222333'' scenario_c_events"
  have h1: "input_file scenario_c_options \<noteq> ''-''" by (simp add: scenario_c_options_def)
  have h2: "files ?env (input_file scenario_c_options) = Some ''000111222333''"
    by (simp add: file_env_def scenario_c_options_def)
  have h3: "unat (st_size scenario_c_options) = length ''000111222333''"
    by (simp add: scenario_c_options_def)
  have h4: "length ''000111222333'' < 9223372036854775808" by simp
  have h5: "\<forall>ci\<in>set scenario_c_children. unat (seek_to ci) < 9223372036854775808"
    by (simp add: scenario_c_children_def)
  have h6: "concat (map (offsets_read scenario_c_options) scenario_c_children)
              = [0 ..< length ''000111222333'']" by code_simp
  have sg: "map (segment ''000111222333'' scenario_c_options) scenario_c_children
     = [''000111'', ''222333'']" by code_simp
  have "list_all (\<lambda>k. 3 dvd length (filter isdigit (concat
            (map (segment ''000111222333'' scenario_c_options) (take k scenario_c_children)))))
          [0 ..< length scenario_c_children]"
    by code_simp
  then have h7: "\<forall>k<length scenario_c_children. 3 dvd length (filter isdigit (concat
            (map (segment ''000111222333'' scenario_c_options) (take k scenario_c_children))))"
    by (simp add: list_all_iff)
  have "map (\<lambda>ci. delivered ci (the (child_handler ?env scenario_c_options ci)))
          scenario_c_children = rev scenario_c_events"
    by code_simp
  then have h8: "mset scenario_c_events
     = mset (map (\<lambda>ci. delivered ci (the (child_handler ?env scenario_c_options ci)))
          scenario_c_children)"
    by simp
  have h9: "unat (waiting_for scenario_c_waiting) = length scenario_c_children"
    by (simp add: scenario_c_waiting_def scenario_c_children_def)
  have h10: "final_sum scenario_c_waiting = 0" by (simp add: scenario_c_waiting_def)
  have single: "sum_val (handle_stdin ''000111222333'' 0) = 666" by code_simp
  have "\<exists>s. poll_loop scenario_c_events scenario_c_waiting = Some s \<and>
              final_sum s = sum_val (handle_stdin ''000111222333'' 0)"
    using multi_worker_sum_equals_single_pass[OF h1 h2 h3 h4 h5 h6 h7 h8 h9 h10] by blast
  then show ?thesis using h6 sg h8 single by simp
qed


section \<open>Whole runs\<close>

theorem final_sum_independent_of_order_witness:
  "mset (map (\<lambda>ev. sum_val (result ev)) (rev scenario_c_events))
     = mset (map (\<lambda>ev. sum_val (result ev)) scenario_c_events) \<and>
   map bytes scenario_c_events = [16, 16] \<and>
   length scenario_c_events = unat (waiting_for scenario_c_waiting) \<and>
   (\<exists>s s'. poll_loop scenario_c_events scenario_c_waiting = Some s \<and>
           poll_loop (rev scenario_c_events) scenario_c_waiting = Some s' \<and>
           final_sum s' = final_sum s \<and> final_sum s = 666)"
proof -
  have h1: "mset (map (\<lambda>ev. sum_val (result ev)) (rev scenario_c_events))
     = mset (map (\<lambda>ev. sum_val (result ev)) scenario_c_events)"
    by (simp add: rev_map[symmetric])
  have h2: "\<forall>ev\<in>set scenario_c_events. 0 < bytes ev"
    by (simp add: scenario_c_events_def)
  then have h3: "\<forall>ev\<in>set (rev scenario_c_events). 0 < bytes ev" by simp
  have h4: "length scenario_c_events = unat (waiting_for scenario_c_waiting)"
    by (simp add: scenario_c_events_def scenario_c_waiting_def)
  have v: "final_sum scenario_c_waiting
             + sum_list (map (\<lambda>ev. sum_val (result ev)) scenario_c_events) = 666"
    by (simp add: scenario_c_events_def scenario_c_waiting_def)
  have b: "map bytes scenario_c_events = [16, 16]"
    by (simp add: scenario_c_events_def)
  show ?thesis
    using final_sum_independent_of_order[OF h1 h2 h3 h4] h1 b h4 unfolding v by blast
qed


text \<open>
  Claim C3, on the code. A block size of 10 on the file \<open>in.dat\<close> of three bytes \<open>123\<close>
  computes a child count of \<open>3 / 10 = 0\<close>. The run is not aborted: no child is created,
  the loop is not entered, and the program writes the size line and \<open>Final Sum: 0\<close> and
  returns 0, although one pass over the file sums to 123. A child count of zero given on
  the command line is refused by \<^verbatim>\<open>parse_opt\<close>.
\<close>

theorem zero_children_run:
  "handle_options small_block_args
     = Inr \<lparr>input_file = ''in.dat'', output_file = Some ''-'', child_count = 1, block_size = 10,
             used_block = True, used_child = False, st_size = 0\<rparr> \<and>
   map child_count (case sized_options (file_env ''123'' []) small_block_args of
                      Some po \<Rightarrow> [po] | None \<Rightarrow> []) = [0] \<and>
   main (file_env ''123'' []) small_block_args
     = \<lparr>outcome = Returned, stderr_lines = [],
        output_lines = [''File size: 3'', ''Final Sum: 0''], children = []\<rparr> \<and>
   sum_val (handle_stdin ''123'' 0) = 123 \<and>
   outcome (main (file_env ''123'' []) [(INPUT_FILE, ''in.dat''), (CHILD_COUNT, ''0'')])
     = Failed (ArgumentError EINVAL)"
  by code_simp












lemma parse_opt_keeps:
  assumes "parse_opt key arg po = Inr po'" and "child_count po \<noteq> 0" and "st_size po = 0"
  shows "child_count po' \<noteq> 0 \<and> st_size po' = 0"
  using assms by (cases key) (auto simp: parse_opt_def Let_def split: if_splits)

lemma argp_parse_keeps:
  "argp_parse args po = Inr po' \<Longrightarrow> child_count po \<noteq> 0 \<Longrightarrow> st_size po = 0 \<Longrightarrow>
   child_count po' \<noteq> 0 \<and> st_size po' = 0"
proof (induction args arbitrary: po)
  case Nil
  then show ?case by simp
next
  case (Cons a args)
  obtain key arg where a: "a = (key, arg)" by (cases a)
  show ?case
  proof (cases "parse_opt key arg po")
    case (Inl e)
    then show ?thesis using Cons.prems(1) a by simp
  next
    case (Inr po1)
    then have "argp_parse args po1 = Inr po'" using Cons.prems(1) a by simp
    then show ?thesis
      using Cons.IH[of po1] parse_opt_keeps[OF Inr Cons.prems(2,3)] by blast
  qed
qed

lemma handle_options_keeps:
  assumes "handle_options args = Inr po"
  shows "child_count po \<noteq> 0 \<and> st_size po = 0"
proof (cases "argp_parse args default_options")
  case (Inl e)
  then show ?thesis using assms by (simp add: handle_options_def)
next
  case (Inr po0)
  have "child_count po0 \<noteq> 0 \<and> st_size po0 = 0"
    using argp_parse_keeps[OF Inr] by (simp add: default_options_def)
  then show ?thesis using assms Inr by (auto simp: handle_options_def split: if_splits)
qed

lemma count_is_one: "(w :: u16) \<noteq> 0 \<Longrightarrow> \<not> 1 < w \<Longrightarrow> w = 1"
proof -
  assume a: "w \<noteq> 0" "\<not> 1 < w"
  then have "unat w \<noteq> 0" "\<not> 1 < unat w"
    by (simp_all add: unat_eq_zero word_less_nat_alt)
  then have "unat w = unat (1 :: u16)" by simp
  then show ?thesis by (simp only: word_unat_eq_iff)
qed

lemma input_setup_stdin:
  assumes "input_file po = ''-''" and "child_count po \<noteq> 0"
  shows "input_setup env po = Inr (stdin_warnings po, [], po\<lparr>child_count := 1, block_size := 0\<rparr>)"
proof -
  have c: "\<not> 1 < child_count po \<Longrightarrow> child_count po = 1"
    using assms(2) by (rule count_is_one)
  show ?thesis
    using assms(1) c
    by (cases po) (auto simp: input_setup_def stdin_warnings_def Let_def)
qed

lemma sizing_stdin:
  "st_size po = 0 \<Longrightarrow>
   sizing (po\<lparr>child_count := 1, block_size := 0\<rparr>) = Inr (po\<lparr>child_count := 1, block_size := 0\<rparr>)"
  by (cases po) (simp add: sizing_def)

lemma to_int_zero: "(of_int (to_int 0) :: u64) = 0"
  by (simp add: to_int_def)

lemma create_children_one:
  assumes "child_count po = 1" and "pipe_result env 0 = Some p" and "fork_ok env 0"
  shows "create_children env po 0 [] = Inr [stdin_child p]"
proof -
  have "add_child env [] (to_int (0 * block_size po)) (to_int (- 1)) = Inr [stdin_child p]"
    using assms(2,3) by (simp add: add_child_def stdin_child_def to_int_zero to_int_minus_one)
  moreover have "create_children env po 1 [stdin_child p] = Inr [stdin_child p]"
    using assms(1) by (simp add: create_children_done)
  ultimately show ?thesis
    using assms(1) by (subst create_children.simps) (simp add: Let_def)
qed

text \<open>
  Claim C8. When the input is standard input, whatever block size or child count the
  command line asked for, sizing ends with a child count of 1 and a block size of 0, the
  one child created reads from offset 0 to the end of the stream (it sums the whole of
  standard input), a warning is written for each overridden setting and for nothing else,
  and the run is not aborted.
\<close>

theorem stdin_forces_one_worker:
  assumes "handle_options args = Inr po" and "input_file po = ''-''"
    and "epoll_create_result env \<noteq> - 1" and "pipe_result env 0 = Some p" and "fork_ok env 0"
  shows "\<exists>po'. sized_options env args = Some po' \<and> child_count po' = 1 \<and> block_size po' = 0 \<and>
           children (main env args) = [stdin_child p] \<and>
           child_handler env po' (stdin_child p) = Some (handle_stdin (stdin_data env) 0) \<and>
           stderr_lines (main env args) = stdin_warnings po \<and>
           (outcome (main env args) = Returned \<or> outcome (main env args) = Blocked)"
proof -
  let ?po = "po\<lparr>child_count := 1, block_size := 0\<rparr>"
  have k: "child_count po \<noteq> 0" "st_size po = 0"
    using handle_options_keeps[OF assms(1)] by simp_all
  have i: "input_setup env po = Inr (stdin_warnings po, [], ?po)"
    using input_setup_stdin[OF assms(2) k(1)] .
  have z: "sizing ?po = Inr ?po" using sizing_stdin[OF k(2)] .
  have c: "create_children env ?po 0 [] = Inr [stdin_child p]"
    using create_children_one[of ?po env p] assms(4,5) by simp
  have so: "sized_options env args = Some ?po"
    using assms(1) i z by (simp add: sized_options_def)
  have ch: "child_handler env ?po (stdin_child p) = Some (handle_stdin (stdin_data env) 0)"
    using assms(2) by (simp add: child_handler_def stdin_child_def Let_def)
  let ?st0 = "\<lparr>final_sum = 0, waiting_for = child_count ?po, out = [],
               watched = map (\<lambda>ci. fst (fds ci)) [stdin_child p]\<rparr>"
  have m: "main env args = run_with_options env po"
    using assms(1,3) by (simp add: main_def)
  have r: "children (run_with_options env po) = [stdin_child p] \<and>
           stderr_lines (run_with_options env po) = stdin_warnings po \<and>
           (outcome (run_with_options env po) = Returned \<or>
            outcome (run_with_options env po) = Blocked)"
    using i z c by (cases "poll_loop (events env) ?st0") (simp_all add: run_with_options_def)
  show ?thesis
    using so ch r unfolding m by (intro exI[of _ ?po]) simp
qed

theorem stdin_forces_one_worker_witness:
  "handle_options [(CHILD_COUNT, ''5'')]
     = Inr \<lparr>input_file = ''-'', output_file = Some ''-'', child_count = 5, block_size = 0,
             used_block = False, used_child = True, st_size = 0\<rparr> \<and>
   epoll_create_result (stdin_env ''12 3'') \<noteq> - 1 \<and>
   pipe_result (stdin_env ''12 3'') 0 = Some (4, 5) \<and> fork_ok (stdin_env ''12 3'') 0 \<and>
   children (main (stdin_env ''12 3'') [(CHILD_COUNT, ''5'')]) = [stdin_child (4, 5)] \<and>
   stderr_lines (main (stdin_env ''12 3'') [(CHILD_COUNT, ''5'')])
     = [''Warn: using stdin... ignoring child count 5.'']"
proof -
  let ?po = "\<lparr>input_file = ''-'', output_file = Some ''-'', child_count = 5, block_size = 0,
             used_block = False, used_child = True, st_size = 0\<rparr>"
  have h1: "handle_options [(CHILD_COUNT, ''5'')] = Inr ?po" by code_simp
  have h2: "input_file ?po = ''-''" by simp
  have h3: "epoll_create_result (stdin_env ''12 3'') \<noteq> - 1" by (simp add: stdin_env_def)
  have h4: "pipe_result (stdin_env ''12 3'') 0 = Some (4, 5)" by (simp add: stdin_env_def)
  have h5: "fork_ok (stdin_env ''12 3'') 0" by (simp add: stdin_env_def)
  have w: "stdin_warnings ?po = [''Warn: using stdin... ignoring child count 5.'']"
    by code_simp
  show ?thesis
    using stdin_forces_one_worker[OF h1 h2 h3 h4 h5] h1 h3 h4 h5 unfolding w by auto
qed


lemma unat_of_nat_16: "i < 65536 \<Longrightarrow> unat (of_nat i :: u16) = i"
  by (simp add: unat_of_nat)

lemma child_numbers_distinct:
  assumes n: "n \<le> unat (w :: u16)"
  shows "distinct (map (of_nat :: nat \<Rightarrow> u16) [0..<n])"
proof -
  have "unat w < 2 ^ LENGTH(16)" by (rule unsigned_less)
  then have w: "unat w < 65536" by simp
  have "inj_on (of_nat :: nat \<Rightarrow> u16) {0..<n}"
  proof (rule inj_onI)
    fix i j assume i: "i \<in> {0..<n}" and j: "j \<in> {0..<n}" and e: "(of_nat i :: u16) = of_nat j"
    have "i < 65536" using i n w by auto
    then have ui: "unat (of_nat i :: u16) = i" by (rule unat_of_nat_16)
    have "j < 65536" using j n w by auto
    then have uj: "unat (of_nat j :: u16) = j" by (rule unat_of_nat_16)
    show "i = j" using ui uj e by metis
  qed
  moreover have "distinct [0..<n]" by simp
  ultimately show ?thesis by (simp only: distinct_map set_upt)
qed


text \<open>
  Claim C9, as amended. From one state of the polling loop to the next, \<^verbatim>\<open>waiting_for\<close> does
  not grow, so it never exceeds its initial value, and \<^verbatim>\<open>final_sum\<close> is either unchanged
  or has grown (in 64-bit arithmetic) by the \<^verbatim>\<open>sum\<close> in \<^verbatim>\<open>result\<close> after a read that returned
  more than zero bytes, a full record or not. The children created carry the numbers
  \<open>0, ..., child_count - 1\<close>, each once, each with its own node and block.
\<close>

theorem coordinator_invariants:
  "hd (poll_states evs st) = st \<and>
   (\<forall>s\<in>set (poll_states evs st). waiting_for s \<le> waiting_for st) \<and>
   successively (\<lambda>a b. waiting_for b \<le> waiting_for a \<and>
       (final_sum b = final_sum a \<or>
        (\<exists>ev\<in>set evs. 0 < bytes ev \<and> final_sum b = final_sum a + sum_val (result ev))))
     (poll_states evs st) \<and>
   (create_children env po 0 [] = Inr cs \<longrightarrow>
      length cs = unat (child_count po) \<and>
      map info_child_num cs = map of_nat [0..<unat (child_count po)] \<and>
      distinct (map info_child_num cs))"
proof -
  have d: "create_children env po 0 [] = Inr cs \<longrightarrow>
      length cs = unat (child_count po) \<and>
      map info_child_num cs = map of_nat [0..<unat (child_count po)] \<and>
      distinct (map info_child_num cs)"
  proof
    assume "create_children env po 0 [] = Inr cs"
    then have cs: "cs = map (child_of env po) [0..<unat (child_count po)]"
      by (rule create_children_Inr)
    then have m: "map info_child_num cs = map of_nat [0..<unat (child_count po)]"
      by (simp add: child_of_def)
    have l: "length cs = unat (child_count po)" unfolding cs by simp
    have "distinct (map (of_nat :: nat \<Rightarrow> u16) [0..<unat (child_count po)])"
      by (rule child_numbers_distinct[of _ "child_count po"]) simp
    then have "distinct (map info_child_num cs)" by (simp only: m)
    then show "length cs = unat (child_count po) \<and>
      map info_child_num cs = map of_nat [0..<unat (child_count po)] \<and>
      distinct (map info_child_num cs)"
      using l m by blast
  qed
  show ?thesis
    using d poll_states_hd[of evs st] poll_states_bounded[of _ evs st]
      poll_states_successively[of evs st]
    by blast
qed

theorem coordinator_invariants_witness:
  "create_children (file_env ''000111222333'' []) scenario_c_options 0 [] = Inr scenario_c_children \<and>
   map info_child_num scenario_c_children = [0, 1] \<and>
   distinct (map info_child_num scenario_c_children) \<and>
   successively (\<lambda>a b. waiting_for b \<le> waiting_for a \<and>
       (final_sum b = final_sum a \<or>
        (\<exists>ev\<in>set scenario_c_events. 0 < bytes ev \<and>
            final_sum b = final_sum a + sum_val (result ev))))
     (poll_states scenario_c_events scenario_c_waiting)"
proof -
  have h: "create_children (file_env ''000111222333'' []) scenario_c_options 0 []
             = Inr scenario_c_children" by code_simp
  have n: "map info_child_num scenario_c_children = [0, 1]"
    by (simp add: scenario_c_children_def)
  note t = coordinator_invariants[of scenario_c_events scenario_c_waiting
            "file_env ''000111222333'' []" scenario_c_options scenario_c_children]
  have d: "distinct (map info_child_num scenario_c_children)"
    using t h by blast
  have s: "successively (\<lambda>a b. waiting_for b \<le> waiting_for a \<and>
       (final_sum b = final_sum a \<or>
        (\<exists>ev\<in>set scenario_c_events. 0 < bytes ev \<and>
            final_sum b = final_sum a + sum_val (result ev))))
     (poll_states scenario_c_events scenario_c_waiting)"
    using t by blast
  show ?thesis using h n d s by blast
qed


text \<open>
  The claim as stated fails: the second read returns one byte, no record, and
  \<^verbatim>\<open>final_sum\<close> still grows by the 111 left in \<^verbatim>\<open>result\<close>; the run ends with 222.
\<close>

theorem partial_record_counterexample:
  "map bytes full_then_partial = [16, 1] \<and>
   map final_sum (poll_states full_then_partial scenario_c_waiting) = [0, 111, 222] \<and>
   map waiting_for (poll_states full_then_partial scenario_c_waiting) = [2, 1, 0] \<and>
   map (\<lambda>st. final_sum st) (case poll_loop full_then_partial scenario_c_waiting of
                                 Some st \<Rightarrow> [st] | None \<Rightarrow> []) = [222]"
  by code_simp


section \<open>Blocks of large and of empty files\<close>

text \<open>An empty file: whatever the number of children, no child reads a byte.\<close>

lemma blocks_empty_file:
  assumes "sizing po = Inr po'" and "st_size po = 0"
  shows "concat (map (offsets_read po') cs) = [0 ..< unat (st_size po)]"
proof -
  have "st_size po' = 0" using sizing_bound[OF assms(1)] assms(2) by simp
  then have "\<And>ci. offsets_read po' ci = []" by (simp add: offsets_read_def)
  then show ?thesis using assms(2) by simp
qed

lemma handle_file_record:
  "r \<noteq> - 1 \<Longrightarrow>
   handle_file stream n pos r
     = \<lparr>child_num = n, sum_val = of_nat (reference_scan (take (unat r + 1 - unat pos) stream))\<rparr>"
  using handle_file_reference[of r stream n pos] by (simp add: handle_file_def)

lemma handle_file_nothing:
  "\<not> pos \<le> r \<Longrightarrow> handle_file stream n pos r = \<lparr>child_num = n, sum_val = 0\<rparr>"
  by (cases stream) (simp_all add: handle_file_def scan_init_def)

text \<open>
  Claim C5, on the code. For four children on a file of 4 GiB the block size is \<open>2^30\<close> and
  \<^verbatim>\<open>main\<close> computes the blocks of the claim, but \<^verbatim>\<open>add_child\<close> takes the two offsets as \<^verbatim>\<open>int\<close>s:
  the third child gets the start \<open>2^64 - 2^31\<close> instead of \<open>2^31\<close> and the fourth
  \<open>2^64 - 2^30\<close> instead of \<open>3 * 2^30\<close>. Whatever the file holds, the third child's seek
  fails and it sums the first \<open>2^30\<close> bytes, the block of the first child, again; the
  fourth child reads nothing. The bytes from \<open>2^31\<close> on are read by no child.
\<close>

theorem four_gib_blocks_are_misplaced:
  "sizing four_gib_options = Inr four_gib_sized \<and>
   create_children (file_env content []) four_gib_sized 0 [] = Inr four_gib_children \<and>
   map (child_handler (file_env content []) four_gib_sized) four_gib_children
     = [Some \<lparr>child_num = 0, sum_val = of_nat (reference_scan (take 1073741824 content))\<rparr>,
        Some \<lparr>child_num = 1,
              sum_val = of_nat (reference_scan (take 1073741824 (drop 1073741824 content)))\<rparr>,
        Some \<lparr>child_num = 2, sum_val = of_nat (reference_scan (take 1073741824 content))\<rparr>,
        Some \<lparr>child_num = 3, sum_val = 0\<rparr>]"
proof -
  have a: "sizing four_gib_options = Inr four_gib_sized" by code_simp
  have b: "create_children (file_env content []) four_gib_sized 0 [] = Inr four_gib_children"
    by code_simp
  let ?env = "file_env content []"
  have f: "input_file four_gib_sized \<noteq> ''-''" "files ?env (input_file four_gib_sized) = Some content"
      "st_size four_gib_sized = 4294967296"
    by (simp_all add: four_gib_sized_def four_gib_options_def file_env_def)
  have c0: "child_handler ?env four_gib_sized
              \<lparr>fds = (4, 5), seek_to = 0, read_to = 1073741823, info_child_num = 0\<rparr>
            = Some \<lparr>child_num = 0, sum_val = of_nat (reference_scan (take 1073741824 content))\<rparr>"
    using f by (simp add: child_handler_def Let_def open_and_seek_to_def handle_file_record)
  have c1: "child_handler ?env four_gib_sized
              \<lparr>fds = (6, 7), seek_to = 1073741824, read_to = 2147483647, info_child_num = 1\<rparr>
            = Some \<lparr>child_num = 1,
                sum_val = of_nat (reference_scan (take 1073741824 (drop 1073741824 content)))\<rparr>"
    using f by (simp add: child_handler_def Let_def open_and_seek_to_def handle_file_record)
  have c2: "child_handler ?env four_gib_sized
              \<lparr>fds = (8, 9), seek_to = 18446744071562067968, read_to = 18446744072635809791,
                 info_child_num = 2\<rparr>
            = Some \<lparr>child_num = 2, sum_val = of_nat (reference_scan (take 1073741824 content))\<rparr>"
    using f by (simp add: child_handler_def Let_def open_and_seek_to_def handle_file_record)
  have c3: "child_handler ?env four_gib_sized
              \<lparr>fds = (10, 11), seek_to = 18446744072635809792, read_to = - 1, info_child_num = 3\<rparr>
            = Some \<lparr>child_num = 3, sum_val = 0\<rparr>"
    using f by (simp add: child_handler_def Let_def open_and_seek_to_def handle_file_nothing)
  show ?thesis
    using a b c0 c1 c2 c3 by (simp add: four_gib_children_def)
qed


end
